theory Spec2Isabelle
  imports Complex_Main "HOL-Library.Log_Nat"
begin

section \<open>JavaScript numbers\<close>

text \<open>
  A JavaScript Number is a binary64 value: a finite number, one of the two infinities, or
  NaN. A finite value is modelled by the rational it denotes, and every arithmetic
  operation rounds its exact result to the nearest binary64 number, ties to even:
  \<open>fl64 x\<close> is \<open>x\<close> rounded to 53 significant bits. The exponent is not bounded.
  Overflow does not occur in the programs below: their sums, products and quotients
  are bounded by 32768 or by a frame count. A result below \<open>2 ^ -1022\<close>, which
  binary64 rounds more coarsely, is never zero and is only compared with larger
  numbers or truncated to the integer 0, so the coarser rounding is not observed.
  The sign of zero is not modelled: it is lost by the conversion to an integer.
\<close>

text \<open>\<open>ilog2 x\<close> is the exponent \<open>e\<close> with \<open>2 ^ e \<le> x < 2 ^ (e + 1)\<close>, for \<open>x > 0\<close>.\<close>

definition ilog2 :: "rat \<Rightarrow> int" where
  "ilog2 x = (if 1 \<le> x then bitlen \<lfloor>x\<rfloor> - 1 else - bitlen (\<lceil>1 / x\<rceil> - 1))"

text \<open>The nearest integer, the even one of two that are equally near.\<close>

definition round_even :: "rat \<Rightarrow> int" where
  "round_even y =
     (let f = \<lfloor>y\<rfloor>; d = y - of_int f
      in if d < 1 / 2 then f else if 1 / 2 < d then f + 1 else if even f then f else f + 1)"

definition fl64 :: "rat \<Rightarrow> rat" where
  "fl64 x =
     (if x = 0 then 0
      else let q = power_int 2 (ilog2 \<bar>x\<bar> - 52) in of_int (round_even (x / q)) * q)"

datatype number = Finite rat | PosInfinity | NegInfinity | NaN

fun Math_min :: "number \<Rightarrow> number \<Rightarrow> number" where
  "Math_min NaN y = NaN"
| "Math_min x NaN = NaN"
| "Math_min NegInfinity y = NegInfinity"
| "Math_min x NegInfinity = NegInfinity"
| "Math_min PosInfinity y = y"
| "Math_min x PosInfinity = x"
| "Math_min (Finite a) (Finite b) = Finite (min a b)"

fun Math_max :: "number \<Rightarrow> number \<Rightarrow> number" where
  "Math_max NaN y = NaN"
| "Math_max x NaN = NaN"
| "Math_max PosInfinity y = PosInfinity"
| "Math_max x PosInfinity = PosInfinity"
| "Math_max NegInfinity y = y"
| "Math_max x NegInfinity = x"
| "Math_max (Finite a) (Finite b) = Finite (max a b)"

fun num_add :: "number \<Rightarrow> number \<Rightarrow> number" where
  "num_add NaN y = NaN"
| "num_add x NaN = NaN"
| "num_add PosInfinity NegInfinity = NaN"
| "num_add NegInfinity PosInfinity = NaN"
| "num_add PosInfinity y = PosInfinity"
| "num_add x PosInfinity = PosInfinity"
| "num_add NegInfinity y = NegInfinity"
| "num_add x NegInfinity = NegInfinity"
| "num_add (Finite a) (Finite b) = Finite (fl64 (a + b))"

text \<open>\<open>x * k\<close> for a finite positive constant \<open>k\<close>, the only products the encoder forms.\<close>

fun num_scale :: "number \<Rightarrow> rat \<Rightarrow> number" where
  "num_scale (Finite a) k = Finite (fl64 (a * k))"
| "num_scale x k = x"

text \<open>\<open>x < 0\<close>; a comparison with NaN is false.\<close>

fun num_negative :: "number \<Rightarrow> bool" where
  "num_negative (Finite a) = (a < 0)"
| "num_negative NegInfinity = True"
| "num_negative x = False"

definition trunc :: "rat \<Rightarrow> int" where
  "trunc r = (if r < 0 then - \<lfloor>- r\<rfloor> else \<lfloor>r\<rfloor>)"

text \<open>
  \<open>x | 0\<close> is ToInt32: NaN and the infinities give 0, a finite value is truncated
  toward zero and reduced modulo \<open>2 ^ 32\<close> into the signed 32-bit range.
\<close>

fun ToInt32 :: "number \<Rightarrow> int" where
  "ToInt32 (Finite r) =
     (let k = trunc r mod 2 ^ 32 in if k \<ge> 2 ^ 31 then k - 2 ^ 32 else k)"
| "ToInt32 x = 0"

section \<open>The WAV encoder\<close>

datatype error = RangeError | TypeError | IndexSizeError | NotSupportedError | InvalidRange

text \<open>
  An AudioBuffer: its sample rate, its length in sample-frames and the channel arrays.
  The number of channels is the number of channel arrays. The sample rate is an integer
  (the data model of the specification); bytes are integers from 0 to 255.
\<close>

record audio_buffer =
  sampleRate :: int
  buf_length :: nat
  channelData :: "number list list"

definition numberOfChannels :: "audio_buffer \<Rightarrow> nat" where
  "numberOfChannels b = length (channelData b)"

definition getChannelData :: "audio_buffer \<Rightarrow> nat \<Rightarrow> error + number list" where
  "getChannelData b i =
     (if i < numberOfChannels b then Inr (channelData b ! i) else Inl IndexSizeError)"

definition valid :: "audio_buffer \<Rightarrow> bool" where
  "valid b \<longleftrightarrow> sampleRate b > 0 \<and> numberOfChannels b > 0 \<and>
     list_all (\<lambda>ch. length ch = buf_length b) (channelData b)"

text \<open>
  The state of \<open>audioBufferToWav\<close>: the bytes behind the DataView, the write position
  and the frame offset. \<open>reads\<close> is not a variable of the program: it logs every
  access \<open>channels[i][offset]\<close> as the pair \<open>(i, offset)\<close>, for the theorems about
  the order and the bounds of the accesses.
\<close>

record encoder =
  view :: "int list"
  pos :: nat
  offset :: nat
  reads :: "(nat \<times> nat) list"

fun le_bytes :: "nat \<Rightarrow> int \<Rightarrow> int list" where
  "le_bytes 0 k = []"
| "le_bytes (Suc n) k = (k mod 256) # le_bytes n (k div 256)"

text \<open>A DataView write of the bytes \<open>bs\<close> at \<open>p\<close>; outside the buffer it throws RangeError.\<close>

definition store :: "nat \<Rightarrow> int list \<Rightarrow> int list \<Rightarrow> error + int list" where
  "store p bs v =
     (if p + length bs \<le> length v then Inr (take p v @ bs @ drop (p + length bs) v)
      else Inl RangeError)"

definition setUint16 :: "int \<Rightarrow> encoder \<Rightarrow> error + encoder" where
  "setUint16 data st =
     (case store (pos st) (le_bytes 2 (data mod 2 ^ 16)) (view st) of
        Inl e \<Rightarrow> Inl e
      | Inr v \<Rightarrow> Inr (st\<lparr>view := v, pos := pos st + 2\<rparr>))"

definition setUint32 :: "int \<Rightarrow> encoder \<Rightarrow> error + encoder" where
  "setUint32 data st =
     (case store (pos st) (le_bytes 4 (data mod 2 ^ 32)) (view st) of
        Inl e \<Rightarrow> Inl e
      | Inr v \<Rightarrow> Inr (st\<lparr>view := v, pos := pos st + 4\<rparr>))"

text \<open>Statements in sequence; the first exception ends the sequence.\<close>

fun in_sequence :: "('s \<Rightarrow> error + 's) list \<Rightarrow> 's \<Rightarrow> error + 's" where
  "in_sequence [] s = Inr s"
| "in_sequence (f # fs) s = (case f s of Inl e \<Rightarrow> Inl e | Inr s' \<Rightarrow> in_sequence fs s')"

definition write_header :: "audio_buffer \<Rightarrow> nat \<Rightarrow> encoder \<Rightarrow> error + encoder" where
  "write_header buffer len =
     (let numOfChan = int (numberOfChannels buffer) in
      in_sequence
       [setUint32 0x46464952,
        setUint32 (int len - 8),
        setUint32 0x45564157,
        setUint32 0x20746d66,
        setUint32 16,
        setUint16 1,
        setUint16 numOfChan,
        setUint32 (sampleRate buffer),
        setUint32 (sampleRate buffer * 2 * numOfChan),
        setUint16 (numOfChan * 2),
        setUint16 16,
        setUint32 0x61746164,
        (\<lambda>st. setUint32 (int len - int (pos st) - 4) st)])"

text \<open>
  \<open>channels[i][offset]\<close>: a read past the end of a typed array gives undefined, which
  \<open>Math.min\<close> converts to NaN.
\<close>

definition typed_get :: "number list \<Rightarrow> nat \<Rightarrow> number" where
  "typed_get ch k = (if k < length ch then ch ! k else NaN)"

text \<open>The two assignments to \<open>sample\<close>.\<close>

definition quantize :: "number \<Rightarrow> int" where
  "quantize x =
     (let sample = Math_max (Finite (- 1)) (Math_min (Finite 1) x) in
      ToInt32 (if num_negative (num_add (Finite (1 / 2)) sample)
               then num_scale sample 32768 else num_scale sample 32767))"

definition setInt16 :: "int \<Rightarrow> encoder \<Rightarrow> error + encoder" where
  "setInt16 data st =
     (case store (pos st) (le_bytes 2 (data mod 2 ^ 16)) (view st) of
        Inl e \<Rightarrow> Inl e
      | Inr v \<Rightarrow> Inr (st\<lparr>view := v\<rparr>))"

text \<open>The body of the \<open>for\<close> loop; \<open>channels[i]\<close> of a missing element throws TypeError.\<close>

definition write_sample :: "number list list \<Rightarrow> nat \<Rightarrow> encoder \<Rightarrow> error + encoder" where
  "write_sample channels i st =
     (if i < length channels then
        (let sample = quantize (typed_get (channels ! i) (offset st)) in
         case setInt16 sample (st\<lparr>reads := reads st @ [(i, offset st)]\<rparr>) of
           Inl e \<Rightarrow> Inl e
         | Inr st' \<Rightarrow> Inr (st'\<lparr>pos := pos st' + 2\<rparr>))
      else Inl TypeError)"

function write_frame ::
  "number list list \<Rightarrow> nat \<Rightarrow> nat \<Rightarrow> encoder \<Rightarrow> error + encoder" where
  "write_frame channels numOfChan i st =
     (if i < numOfChan then
        (case write_sample channels i st of
           Inl e \<Rightarrow> Inl e
         | Inr st' \<Rightarrow> write_frame channels numOfChan (i + 1) st')
      else Inr st)"
  by pat_completeness auto
termination
  by (relation "measure (\<lambda>(channels, numOfChan, i, st). numOfChan - i)") auto

declare write_frame.simps [simp del]

text \<open>
  The \<open>while\<close> loop. Nothing in its body bounds the number of iterations when
  \<open>numOfChan\<close> is 0, so it is a partial function: \<open>None\<close> is a loop that never ends.
  In \<open>encode_run\<close>, the array \<open>channels\<close> collects \<open>getChannelData(i)\<close> for
  every \<open>i\<close> below the number of channels, where it cannot throw.
\<close>

partial_function (option) write_samples ::
  "number list list \<Rightarrow> nat \<Rightarrow> nat \<Rightarrow> encoder \<Rightarrow> (error + encoder) option" where
  "write_samples channels numOfChan len st =
     (if pos st < len then
        (case write_frame channels numOfChan 0 st of
           Inl e \<Rightarrow> Some (Inl e)
         | Inr st' \<Rightarrow> write_samples channels numOfChan len (st'\<lparr>offset := offset st' + 1\<rparr>))
      else Some (Inr st))"

declare write_samples.simps [code]

definition encode_run :: "audio_buffer \<Rightarrow> (error + encoder) option" where
  "encode_run buffer =
     (let numOfChan = numberOfChannels buffer;
          len = buf_length buffer * numOfChan * 2 + 44;
          wavBuffer = replicate len 0
      in case write_header buffer len \<lparr>view = wavBuffer, pos = 0, offset = 0, reads = []\<rparr> of
           Inl e \<Rightarrow> Some (Inl e)
         | Inr st \<Rightarrow>
             (let channels = map (\<lambda>i. channelData buffer ! i) [0..<numberOfChannels buffer]
              in write_samples channels numOfChan len st))"

definition audioBufferToWav :: "audio_buffer \<Rightarrow> (error + int list) option" where
  "audioBufferToWav buffer = map_option (map_sum id view) (encode_run buffer)"

section \<open>Trimming\<close>

text \<open>
  \<open>AudioBuffer.duration\<close>: the length in frames divided by the sample rate, as a
  binary64 number; the sample rate of an AudioBuffer is positive. The start and end
  times are finite numbers; a NaN time (an empty input field) is not modelled.
\<close>

definition duration :: "audio_buffer \<Rightarrow> rat" where
  "duration b = fl64 (of_nat (buf_length b) / of_int (sampleRate b))"

text \<open>
  \<open>BaseAudioContext.createBuffer\<close> gives a zero-filled buffer and throws
  NotSupportedError when an argument is zero or negative (Web Audio API: the length
  must be at least 1). The upper ends of the nominal ranges, which depend on the
  browser, are not modelled: the arguments come from a buffer the same platform has
  decoded. A negative length does not reach it from \<open>handleTrim\<close>: once the range
  check has passed, the sample rate is positive and the two indices are ordered.
\<close>

definition createBuffer :: "nat \<Rightarrow> int \<Rightarrow> int \<Rightarrow> error + audio_buffer" where
  "createBuffer numOfChannels len rate =
     (if numOfChannels = 0 \<or> len \<le> 0 \<or> rate \<le> 0 then Inl NotSupportedError
      else Inr \<lparr>sampleRate = rate, buf_length = nat len,
                channelData = replicate numOfChannels (replicate (nat len) (Finite 0))\<rparr>)"

text \<open>
  \<open>TypedArray.subarray(begin, end)\<close>: a negative index counts from the end, and both
  indices are clamped into the array.
\<close>

definition subarray :: "'a list \<Rightarrow> int \<Rightarrow> int \<Rightarrow> 'a list" where
  "subarray xs begin end =
     (let len = int (length xs);
          beginIndex = (if begin < 0 then max (len + begin) 0 else min begin len);
          endIndex = (if end < 0 then max (len + end) 0 else min end len)
      in take (nat (endIndex - beginIndex)) (drop (nat beginIndex) xs))"

text \<open>\<open>target.set(source)\<close> copies to the front of the target; a longer source throws.\<close>

definition typed_set :: "'a list \<Rightarrow> 'a list \<Rightarrow> error + 'a list" where
  "typed_set target source =
     (if length source > length target then Inl RangeError
      else Inr (source @ drop (length source) target))"

text \<open>The \<open>for\<close> loop of \<open>handleTrim\<close> over the channels, from channel \<open>i\<close> on.\<close>

function copy_channels ::
  "audio_buffer \<Rightarrow> int \<Rightarrow> int \<Rightarrow> nat \<Rightarrow> audio_buffer \<Rightarrow> error + audio_buffer" where
  "copy_channels audioBuffer startSample endSample i newBuffer =
     (if i < numberOfChannels audioBuffer then
        (case getChannelData audioBuffer i of
           Inl e \<Rightarrow> Inl e
         | Inr chData \<Rightarrow>
             (case getChannelData newBuffer i of
                Inl e \<Rightarrow> Inl e
              | Inr newChannelData \<Rightarrow>
                  (case typed_set newChannelData (subarray chData startSample endSample) of
                     Inl e \<Rightarrow> Inl e
                   | Inr d \<Rightarrow>
                       copy_channels audioBuffer startSample endSample (i + 1)
                         (newBuffer\<lparr>channelData := (channelData newBuffer)[i := d]\<rparr>))))
      else Inr newBuffer)"
  by pat_completeness auto
termination
  by (relation "measure (\<lambda>(audioBuffer, startSample, endSample, i, newBuffer).
        numberOfChannels audioBuffer - i)") auto

declare copy_channels.simps [simp del]

text \<open>
  The part of \<open>handleTrim\<close> from the clamping of the times to the filled \<open>newBuffer\<close>:
  the range extraction. The rejected range is the error \<open>InvalidRange\<close>. Creating
  the AudioContext is taken to succeed.
\<close>

definition handleTrim_newBuffer :: "audio_buffer \<Rightarrow> rat \<Rightarrow> rat \<Rightarrow> error + audio_buffer" where
  "handleTrim_newBuffer audioBuffer startTime endTime =
     (let start = max 0 startTime;
          end = min endTime (duration audioBuffer)
      in if end \<le> start then Inl InvalidRange
         else
           (let startSample = \<lfloor>fl64 (start * of_int (sampleRate audioBuffer))\<rfloor>;
                endSample = \<lfloor>fl64 (end * of_int (sampleRate audioBuffer))\<rfloor>;
                len = endSample - startSample
            in case createBuffer (numberOfChannels audioBuffer) len (sampleRate audioBuffer) of
                 Inl e \<Rightarrow> Inl e
               | Inr newBuffer \<Rightarrow> copy_channels audioBuffer startSample endSample 0 newBuffer))"

text \<open>
  The state of the AudioTrimmer component that \<open>handleTrim\<close> reads and writes. The
  output is the encoded file behind the object URL.
\<close>

record trimmer =
  audioBuffer :: "audio_buffer option"
  startTime :: rat
  endTime :: rat
  output_wav :: "int list option"
  status :: string

text \<open>
  An exception thrown inside the handler leaves the state as it was when it was thrown:
  the status set at the start, and the output untouched.
\<close>

definition handleTrim :: "trimmer \<Rightarrow> trimmer" where
  "handleTrim st =
     (case audioBuffer st of
        None \<Rightarrow> st
      | Some b \<Rightarrow>
          (case handleTrim_newBuffer b (startTime st) (endTime st) of
             Inl InvalidRange \<Rightarrow> st\<lparr>status := ''Error: End time must be after start time.''\<rparr>
           | Inl e \<Rightarrow> st\<lparr>status := ''Trimming...''\<rparr>
           | Inr newBuffer \<Rightarrow>
               (case audioBufferToWav newBuffer of
                  Some (Inr wavBuffer) \<Rightarrow>
                    st\<lparr>output_wav := Some wavBuffer, status := ''Trimming complete.''\<rparr>
                | _ \<Rightarrow> st\<lparr>status := ''Trimming...''\<rparr>)))"

section \<open>Reading a WAV file back\<close>

text \<open>
  What a reader of the file sees: the bytes from \<open>i\<close> up to \<open>j\<close>, an unsigned
  little-endian integer, a signed 16-bit one, and the sequence of 16-bit samples of a
  data section.
\<close>

definition slice :: "nat \<Rightarrow> nat \<Rightarrow> 'a list \<Rightarrow> 'a list" where
  "slice i j xs = take (j - i) (drop i xs)"

fun le_uint :: "int list \<Rightarrow> int" where
  "le_uint [] = 0"
| "le_uint (b # bs) = b + 256 * le_uint bs"

definition le_sint16 :: "int list \<Rightarrow> int" where
  "le_sint16 bs = (let u = le_uint bs in if u \<ge> 2 ^ 15 then u - 2 ^ 16 else u)"

fun samples16 :: "int list \<Rightarrow> int list" where
  "samples16 (lo # hi # bs) = le_sint16 [lo, hi] # samples16 bs"
| "samples16 bs = []"

definition ascii :: "string \<Rightarrow> int list" where
  "ascii s = map (\<lambda>c. int (of_char c)) s"

section \<open>The bytes the encoder writes\<close>

text \<open>
  The header as the sequence of the thirteen header writes, the bytes of the frame
  \<open>f\<close> from channel \<open>i\<close> on, the bytes of \<open>m\<close> frames from frame \<open>f\<close> on, and the
  order of the accesses to the channel data. These are used to state what the loops
  compute.
\<close>

definition wav_header :: "audio_buffer \<Rightarrow> nat \<Rightarrow> int list" where
  "wav_header buffer len =
     (let numOfChan = int (numberOfChannels buffer) in
      concat
       [le_bytes 4 (0x46464952 mod 2 ^ 32),
        le_bytes 4 ((int len - 8) mod 2 ^ 32),
        le_bytes 4 (0x45564157 mod 2 ^ 32),
        le_bytes 4 (0x20746d66 mod 2 ^ 32),
        le_bytes 4 (16 mod 2 ^ 32),
        le_bytes 2 (1 mod 2 ^ 16),
        le_bytes 2 (numOfChan mod 2 ^ 16),
        le_bytes 4 (sampleRate buffer mod 2 ^ 32),
        le_bytes 4 (sampleRate buffer * 2 * numOfChan mod 2 ^ 32),
        le_bytes 2 (numOfChan * 2 mod 2 ^ 16),
        le_bytes 2 (16 mod 2 ^ 16),
        le_bytes 4 (0x61746164 mod 2 ^ 32),
        le_bytes 4 ((int len - 44) mod 2 ^ 32)])"

definition frame_bytes :: "number list list \<Rightarrow> nat \<Rightarrow> nat \<Rightarrow> nat \<Rightarrow> int list" where
  "frame_bytes channels f i numOfChan =
     concat (map (\<lambda>c. le_bytes 2 (quantize (typed_get (channels ! c) f) mod 2 ^ 16))
       [i..<numOfChan])"

definition data_bytes :: "number list list \<Rightarrow> nat \<Rightarrow> nat \<Rightarrow> nat \<Rightarrow> int list" where
  "data_bytes channels numOfChan f m =
     concat (map (\<lambda>fr. frame_bytes channels fr 0 numOfChan) [f..<f + m])"

definition read_order :: "nat \<Rightarrow> nat \<Rightarrow> nat \<Rightarrow> (nat \<times> nat) list" where
  "read_order numOfChan f m =
     concat (map (\<lambda>fr. map (\<lambda>c. (c, fr)) [0..<numOfChan]) [f..<f + m])"

text \<open>The quantized samples of a buffer in frame-major order: all channels of frame 0, then of frame 1, and so on.\<close>

definition interleaved :: "audio_buffer \<Rightarrow> int list" where
  "interleaved b =
     concat (map (\<lambda>f. map (\<lambda>c. quantize (channelData b ! c ! f)) [0..<numberOfChannels b])
       [0..<buf_length b])"

section \<open>Example inputs\<close>

text \<open>The two-channel, two-frame buffer of the stereo interleaving scenario.\<close>

definition stereo_example :: audio_buffer where
  "stereo_example =
     \<lparr>sampleRate = 44100, buf_length = 2,
      channelData = [[Finite 0, Finite (1 / 2)], [Finite (- 1 / 2), Finite (1 / 4)]]\<rparr>"

text \<open>
  The literal header scenario: one second of mono silence at 44100 Hz. And a mono
  recording of \<open>2 ^ 31\<close> frames, whose data section has \<open>2 ^ 32\<close> bytes.
\<close>

definition one_second_silence :: audio_buffer where
  "one_second_silence =
     \<lparr>sampleRate = 44100, buf_length = 44100, channelData = [replicate 44100 (Finite 0)]\<rparr>"

definition long_recording :: audio_buffer where
  "long_recording =
     \<lparr>sampleRate = 44100, buf_length = 2147483648,
      channelData = [replicate 2147483648 (Finite 0)]\<rparr>"

text \<open>
  A mono clip of four frames at 8192 Hz, and the component state of a trim request
  whose end lies before its start, after an earlier trim has left an output.
\<close>

definition short_clip :: audio_buffer where
  "short_clip =
     \<lparr>sampleRate = 8192, buf_length = 4,
      channelData = [[Finite 0, Finite (1 / 4), Finite (1 / 2), Finite (3 / 4)]]\<rparr>"

definition rejected_state :: trimmer where
  "rejected_state =
     \<lparr>audioBuffer = Some short_clip, startTime = 5, endTime = 3,
      output_wav = Some [82, 73, 70, 70], status = ''Audio loaded.''\<rparr>"

text \<open>
  The composition of the extraction composition property: the range from \<open>a\<close> to
  \<open>b\<close> is extracted, and then the range from 0 to \<open>b - a\<close>, the difference as
  a binary64 number, of the result.
\<close>

definition trim_then_trim :: "audio_buffer \<Rightarrow> rat \<Rightarrow> rat \<Rightarrow> error + audio_buffer" where
  "trim_then_trim buffer a b =
     (case handleTrim_newBuffer buffer a b of
        Inl e \<Rightarrow> Inl e
      | Inr sub \<Rightarrow> handleTrim_newBuffer sub 0 (fl64 (b - a)))"

text \<open>
  The length of an AudioBuffer is an unsigned long. And the first \<open>k\<close> frames of a
  buffer, as a buffer.
\<close>

definition unsigned_long :: "nat \<Rightarrow> bool" where
  "unsigned_long n \<longleftrightarrow> n < 2 ^ 32"

definition prefix_frames :: "nat \<Rightarrow> audio_buffer \<Rightarrow> audio_buffer" where
  "prefix_frames k b =
     \<lparr>sampleRate = sampleRate b, buf_length = k, channelData = map (take k) (channelData b)\<rparr>"

text \<open>
  A mono buffer of 15 frames at 44100 Hz, whose duration times the sample rate is
  14.999999999999998 in binary64, and a mono buffer of one frame at 3007 Hz, for which
  that product is below 1.
\<close>

definition fifteen_frames :: audio_buffer where
  "fifteen_frames =
     \<lparr>sampleRate = 44100, buf_length = 15,
      channelData = [map (\<lambda>k. Finite (of_nat k / 16)) [0..<15]]\<rparr>"

definition one_frame :: audio_buffer where
  "one_frame = \<lparr>sampleRate = 3007, buf_length = 1, channelData = [[Finite (1 / 2)]]\<rparr>"

section \<open>Rounding to binary64\<close>

lemma ilog2_bounds:
  assumes "0 < x"
  shows "power_int 2 (ilog2 x) \<le> x" and "x < power_int 2 (ilog2 x + 1)"
proof -
  have "power_int 2 (ilog2 x) \<le> x \<and> x < power_int 2 (ilog2 x + 1)"
  proof (cases "1 \<le> x")
    case True
    define m where "m = \<lfloor>x\<rfloor>"
    have m: "0 < m" using True by (simp add: m_def)
    then have b: "1 \<le> bitlen m" by (simp add: bitlen_alt_def)
    have e: "ilog2 x = bitlen m - 1" using True by (simp add: ilog2_def m_def)
    from bitlen_bounds [OF m] have lo: "2 ^ nat (bitlen m - 1) \<le> m" and hi: "m < 2 ^ nat (bitlen m)"
      by simp_all
    have "(2::rat) ^ nat (bitlen m - 1) = of_int (2 ^ nat (bitlen m - 1))" by simp
    also have "\<dots> \<le> of_int m" using lo by (simp only: of_int_le_iff)
    also have "\<dots> \<le> x" unfolding m_def by linarith
    finally have 1: "power_int 2 (ilog2 x) \<le> x"
      using b by (simp add: e power_int_def)
    have "m + 1 \<le> 2 ^ nat (bitlen m)" using hi by simp
    then have "(of_int (m + 1) :: rat) \<le> of_int (2 ^ nat (bitlen m))"
      by (simp only: of_int_le_iff)
    moreover have "x < of_int (m + 1)" unfolding m_def by linarith
    ultimately have "x < 2 ^ nat (bitlen m)" by simp
    then have 2: "x < power_int 2 (ilog2 x + 1)"
      using b by (simp add: e power_int_def)
    show ?thesis using 1 2 by simp
  next
    case False
    define y where "y = 1 / x"
    define m where "m = \<lceil>y\<rceil>"
    define j where "j = bitlen (m - 1)"
    have y: "1 < y" using False assms by (simp add: y_def)
    then have m: "0 < m - 1" unfolding m_def by (simp add: less_ceiling_iff)
    then have j: "1 \<le> j" by (simp add: j_def bitlen_alt_def)
    have e: "ilog2 x = - j" using False by (simp add: ilog2_def m_def y_def j_def)
    from bitlen_bounds [OF m] have lo: "2 ^ nat (j - 1) \<le> m - 1" and hi: "m - 1 < 2 ^ nat j"
      by (simp_all add: j_def)
    have mj: "m \<le> 2 ^ nat j" using hi by simp
    have "y \<le> of_int m" unfolding m_def by linarith
    also have "\<dots> \<le> of_int (2 ^ nat j)" using mj by (simp only: of_int_le_iff)
    also have "\<dots> = 2 ^ nat j" by simp
    finally have yhi: "y \<le> 2 ^ nat j" .
    have "2 ^ nat (j - 1) < m" using lo by simp
    then have "(2 ^ nat (j - 1) :: int) < \<lceil>y\<rceil>" by (simp add: m_def)
    then have "(of_int (2 ^ nat (j - 1)) :: rat) < y" by (simp only: less_ceiling_iff)
    then have ylo: "2 ^ nat (j - 1) < y" by simp
    have x: "x = 1 / y" using assms by (simp add: y_def)
    have 1: "power_int 2 (ilog2 x) \<le> x"
    proof -
      have "1 / 2 ^ nat j \<le> 1 / y"
        using yhi y by (intro divide_left_mono) simp_all
      moreover have "power_int (2::rat) (- j) = 1 / 2 ^ nat j"
        using j by (simp add: power_int_def field_simps)
      ultimately show ?thesis unfolding e by (simp add: x)
    qed
    have 2: "x < power_int 2 (ilog2 x + 1)"
    proof -
      have "1 / y < 1 / 2 ^ nat (j - 1)"
        using ylo y by (intro divide_strict_left_mono) simp_all
      moreover have "power_int (2::rat) (- j + 1) = 1 / 2 ^ nat (j - 1)"
      proof (cases "j = 1")
        case True
        then show ?thesis by simp
      next
        case False
        then have "- j + 1 < 0" using j by simp
        then show ?thesis
          by (simp add: power_int_def field_simps)
      qed
      ultimately show ?thesis unfolding e by (simp add: x)
    qed
    show ?thesis using 1 2 by simp
  qed
  then show "power_int 2 (ilog2 x) \<le> x" and "x < power_int 2 (ilog2 x + 1)"
    by simp_all
qed


lemma round_even_bounds:
  "of_int (round_even y) - 1 / 2 \<le> y" "y \<le> of_int (round_even y) + 1 / 2"
  unfolding round_even_def Let_def by (auto split: if_splits) linarith+

lemma round_even_of_int [simp]: "round_even (of_int k) = k"
  by (simp add: round_even_def)

lemma round_even_mono:
  assumes "x \<le> y"
  shows "round_even x \<le> round_even y"
proof (cases "\<lfloor>x\<rfloor> = \<lfloor>y\<rfloor>")
  case True
  then show ?thesis
    using assms unfolding round_even_def Let_def by (auto split: if_splits)
next
  case False
  then have "\<lfloor>x\<rfloor> + 1 \<le> \<lfloor>y\<rfloor>"
    using floor_mono [OF assms] by simp
  moreover have "round_even x \<le> \<lfloor>x\<rfloor> + 1" "\<lfloor>y\<rfloor> \<le> round_even y"
    unfolding round_even_def Let_def by (auto split: if_splits)
  ultimately show ?thesis by linarith
qed

lemma round_even_minus: "round_even (- y) = - round_even y"
proof (cases "y \<in> \<int>")
  case True
  then obtain k where "y = of_int k" by (auto elim: Ints_cases)
  then show ?thesis by (simp flip: of_int_minus)
next
  case False
  then have ne: "y \<noteq> of_int \<lfloor>y\<rfloor>"
    by (metis Ints_of_int)
  then have f: "\<lfloor>- y\<rfloor> = - \<lfloor>y\<rfloor> - 1"
    by (simp add: floor_minus ceiling_altdef)
  have fr: "0 < y - of_int \<lfloor>y\<rfloor>"
    using ne of_int_floor_le [of y] by linarith
  show ?thesis
    unfolding round_even_def Let_def f using fr
    by (auto split: if_splits)
qed


lemma ilog2_mono:
  assumes "0 < x" and "x \<le> y"
  shows "ilog2 x \<le> ilog2 y"
proof (rule ccontr)
  assume "\<not> ilog2 x \<le> ilog2 y"
  then have "ilog2 y + 1 \<le> ilog2 x" by simp
  then have "power_int (2::rat) (ilog2 y + 1) \<le> power_int 2 (ilog2 x)"
    by (intro power_int_increasing) simp_all
  moreover have "y < power_int 2 (ilog2 y + 1)" "power_int 2 (ilog2 x) \<le> x"
    using assms by (auto intro: ilog2_bounds)
  ultimately show False using assms(2) by linarith
qed

lemma fl64_pos:
  assumes "0 < x"
  defines "q \<equiv> power_int (2::rat) (ilog2 x - 52)"
  shows "fl64 x = of_int (round_even (x / q)) * q"
    and "0 < q"
    and "power_int 2 (ilog2 x) = q * 2 ^ 52"
    and "power_int 2 (ilog2 x + 1) = q * 2 ^ 53"
    and "2 ^ 52 \<le> round_even (x / q)"
    and "round_even (x / q) \<le> 2 ^ 53"
proof -
  show q: "0 < q" by (simp add: q_def)
  show "fl64 x = of_int (round_even (x / q)) * q"
    using assms(1) by (simp add: fl64_def q_def Let_def)
  have "power_int (2::rat) (ilog2 x - 52 + 52) = q * power_int 2 52"
    unfolding q_def by (rule power_int_add) simp
  then show e: "power_int 2 (ilog2 x) = q * 2 ^ 52" by simp
  have "power_int (2::rat) (ilog2 x - 52 + 53) = q * power_int 2 53"
    unfolding q_def by (rule power_int_add) simp
  then show e1: "power_int 2 (ilog2 x + 1) = q * 2 ^ 53" by (simp add: algebra_simps)
  have "q * 2 ^ 52 \<le> x" "x < q * 2 ^ 53"
    using ilog2_bounds [OF assms(1)] unfolding e e1 by simp_all
  then have b: "of_int (2 ^ 52) \<le> x / q" "x / q \<le> of_int (2 ^ 53)"
    using q by (simp_all add: pos_le_divide_eq pos_divide_le_eq mult.commute)
  show "2 ^ 52 \<le> round_even (x / q)"
    using round_even_mono [OF b(1)] by (simp only: round_even_of_int)
  show "round_even (x / q) \<le> 2 ^ 53"
    using round_even_mono [OF b(2)] by (simp only: round_even_of_int)
qed

lemma fl64_minus: "fl64 (- x) = - fl64 x"
  by (simp add: fl64_def Let_def round_even_minus)

lemma fl64_zero [simp]: "fl64 0 = 0"
  by (simp add: fl64_def)

lemma fl64_pos_bounds:
  assumes "0 < x"
  shows "power_int 2 (ilog2 x) \<le> fl64 x" and "fl64 x \<le> power_int 2 (ilog2 x + 1)"
proof -
  define q where "q = power_int (2::rat) (ilog2 x - 52)"
  note f = fl64_pos [OF assms, folded q_def]
  have "(of_int (2 ^ 52) :: rat) \<le> of_int (round_even (x / q))"
    using f(5) by (simp only: of_int_le_iff)
  then have "of_int (2 ^ 52) * q \<le> of_int (round_even (x / q)) * q"
    using f(2) by (intro mult_right_mono) simp_all
  then show "power_int 2 (ilog2 x) \<le> fl64 x"
    unfolding f(1) f(3) by (simp add: mult.commute)
  have "(of_int (round_even (x / q)) :: rat) \<le> of_int (2 ^ 53)"
    using f(6) by (simp only: of_int_le_iff)
  then have "of_int (round_even (x / q)) * q \<le> of_int (2 ^ 53) * q"
    using f(2) by (intro mult_right_mono) simp_all
  then show "fl64 x \<le> power_int 2 (ilog2 x + 1)"
    unfolding f(1) f(4) by (simp add: mult.commute)
qed

lemma fl64_pos_mono:
  assumes "0 < x" and "x \<le> y"
  shows "fl64 x \<le> fl64 y"
proof -
  have y: "0 < y" using assms by simp
  have le: "ilog2 x \<le> ilog2 y" using assms by (rule ilog2_mono)
  show ?thesis
  proof (cases "ilog2 x = ilog2 y")
    case True
    define q where "q = power_int (2::rat) (ilog2 x - 52)"
    have fx: "fl64 x = of_int (round_even (x / q)) * q" and q: "0 < q"
      using fl64_pos [OF assms(1)] by (simp_all add: q_def)
    have fy: "fl64 y = of_int (round_even (y / q)) * q"
      using fl64_pos(1) [OF y] by (simp add: q_def True)
    have "x / q \<le> y / q" using assms(2) q by (simp add: divide_right_mono)
    then have "round_even (x / q) \<le> round_even (y / q)" by (rule round_even_mono)
    then have "(of_int (round_even (x / q)) :: rat) \<le> of_int (round_even (y / q))"
      by (simp only: of_int_le_iff)
    then show ?thesis unfolding fx fy using q by (intro mult_right_mono) simp_all
  next
    case False
    then have "ilog2 x + 1 \<le> ilog2 y" using le by simp
    then have "power_int (2::rat) (ilog2 x + 1) \<le> power_int 2 (ilog2 y)"
      by (intro power_int_increasing) simp_all
    then show ?thesis
      using fl64_pos_bounds(2) [OF assms(1)] fl64_pos_bounds(1) [OF y] by linarith
  qed
qed

lemma fl64_nonneg: "0 \<le> x \<Longrightarrow> 0 \<le> fl64 x"
proof (cases "x = 0")
  case True
  then show ?thesis by simp
next
  case False
  assume "0 \<le> x"
  then have x: "0 < x" using False by simp
  have "0 < power_int (2::rat) (ilog2 x)" by simp
  then show ?thesis using fl64_pos_bounds(1) [OF x] by linarith
qed

lemma fl64_pos_iff: "0 < fl64 x \<longleftrightarrow> 0 < x"
proof
  assume x: "0 < x"
  have "0 < power_int (2::rat) (ilog2 x)" by simp
  then show "0 < fl64 x" using fl64_pos_bounds(1) [OF x] by linarith
next
  assume f: "0 < fl64 x"
  show "0 < x"
  proof (rule ccontr)
    assume "\<not> 0 < x"
    then have "0 \<le> - x" by simp
    then have "0 \<le> fl64 (- x)" by (rule fl64_nonneg)
    then show False using f by (simp add: fl64_minus)
  qed
qed

lemma fl64_neg_iff: "fl64 x < 0 \<longleftrightarrow> x < 0"
  using fl64_pos_iff [of "- x"] by (simp add: fl64_minus)

lemma fl64_mono:
  assumes "x \<le> y"
  shows "fl64 x \<le> fl64 y"
proof -
  consider "0 < x" | "x \<le> 0" "0 \<le> y" | "y < 0" using assms by linarith
  then show ?thesis
  proof cases
    case 1
    then show ?thesis using assms by (rule fl64_pos_mono)
  next
    case 2
    have "0 \<le> fl64 (- x)" "0 \<le> fl64 y" using 2 by (simp_all add: fl64_nonneg)
    then show ?thesis by (simp add: fl64_minus)
  next
    case 3
    then have "fl64 (- y) \<le> fl64 (- x)" using assms by (intro fl64_pos_mono) simp_all
    then show ?thesis by (simp add: fl64_minus)
  qed
qed


lemma fl64_error_pos:
  assumes "0 < x"
  shows "\<bar>fl64 x - x\<bar> \<le> x / 2 ^ 53"
proof -
  define q where "q = power_int (2::rat) (ilog2 x - 52)"
  define y where "y = x / q"
  note f = fl64_pos [OF assms, folded q_def]
  have x: "x = y * q" using f(2) by (simp add: y_def)
  have "\<bar>of_int (round_even y) - y\<bar> \<le> 1 / 2"
    using round_even_bounds [of y] by linarith
  then have "\<bar>of_int (round_even y) - y\<bar> * q \<le> 1 / 2 * q"
    using f(2) by (intro mult_right_mono) simp_all
  moreover have "fl64 x - x = (of_int (round_even y) - y) * q"
    unfolding f(1) y_def [symmetric] by (simp add: x algebra_simps)
  ultimately have "\<bar>fl64 x - x\<bar> \<le> q / 2"
    using f(2) by (simp add: abs_mult)
  moreover have "q * 2 ^ 52 \<le> x"
    using ilog2_bounds(1) [OF assms] unfolding f(3) .
  ultimately show ?thesis by (simp add: field_simps)
qed

lemma fl64_error: "\<bar>fl64 x - x\<bar> \<le> \<bar>x\<bar> / 2 ^ 53"
proof -
  consider "0 < x" | "x = 0" | "x < 0" by linarith
  then show ?thesis
  proof cases
    case 1
    then show ?thesis using fl64_error_pos [OF 1] by simp
  next
    case 2
    then show ?thesis by simp
  next
    case 3
    then have "\<bar>fl64 (- x) - (- x)\<bar> \<le> (- x) / 2 ^ 53"
      by (intro fl64_error_pos) simp
    then show ?thesis using 3 by (simp add: fl64_minus abs_if split: if_splits)
  qed
qed

lemma fl64_of_int_pos:
  assumes "0 < k" and "k < 2 ^ 53"
  shows "fl64 (of_int k) = of_int k"
proof -
  define x :: rat where "x = of_int k"
  define q where "q = power_int (2::rat) (ilog2 x - 52)"
  have x: "0 < x" using assms(1) by (simp add: x_def)
  note f = fl64_pos [OF x, folded q_def]
  have "x < of_int (2 ^ 53)" unfolding x_def using assms(2) by (simp only: of_int_less_iff)
  then have "power_int (2::rat) (ilog2 x) < power_int 2 53"
    using ilog2_bounds(1) [OF x] by simp
  then have "ilog2 x < 53"
    by (rule power_int_le_imp_less_exp [rotated]) simp_all
  then have n: "0 \<le> 52 - ilog2 x" by simp
  have "power_int (2::rat) (52 - ilog2 x) * q = power_int 2 (52 - ilog2 x + (ilog2 x - 52))"
    unfolding q_def by (rule power_int_add [symmetric]) simp
  then have inv: "power_int (2::rat) (52 - ilog2 x) * q = 1" by simp
  then have "x / q = x * power_int 2 (52 - ilog2 x)"
    using f(2) by (simp add: field_simps)
  also have "\<dots> = of_int (k * 2 ^ nat (52 - ilog2 x))"
    using n by (simp add: x_def power_int_nonneg_exp)
  finally have "fl64 x = of_int (k * 2 ^ nat (52 - ilog2 x)) * q"
    unfolding f(1) by (simp only: round_even_of_int)
  also have "\<dots> = x * (power_int 2 (52 - ilog2 x) * q)"
    using n by (simp add: x_def power_int_nonneg_exp)
  finally show ?thesis unfolding inv by (simp add: x_def)
qed

lemma fl64_of_int:
  assumes "\<bar>k\<bar> < 2 ^ 53"
  shows "fl64 (of_int k) = of_int k"
proof -
  consider "0 < k" | "k = 0" | "k < 0" by linarith
  then show ?thesis
  proof cases
    case 1
    then show ?thesis using assms by (intro fl64_of_int_pos) simp_all
  next
    case 2
    then show ?thesis by simp
  next
    case 3
    then have "fl64 (of_int (- k)) = of_int (- k)"
      using assms by (intro fl64_of_int_pos) simp_all
    then show ?thesis by (simp add: fl64_minus)
  qed
qed

text \<open>
  Values of \<open>fl64\<close> that any binary64 implementation shows: 1/3 and 1/10 as
  JavaScript prints them in full, the two ties above \<open>2 ^ 53\<close>, and the two
  products of a duration and a sample rate that lose a frame.
\<close>

lemma fl64_examples:
  "fl64 (1 / 3) = 6004799503160661 / 18014398509481984"
  "fl64 (1 / 10) = 3602879701896397 / 36028797018963968"
  "fl64 9007199254740993 = 9007199254740992"
  "fl64 9007199254740995 = 9007199254740996"
  "fl64 (fl64 (15 / 44100) * 44100) = 15 - 1 / 2 ^ 49"
  "fl64 (fl64 (1 / 3007) * 3007) = 1 - 1 / 2 ^ 53"
  by code_simp+

section \<open>Quantization\<close>

lemma int32_id:
  assumes "- (2 ^ 31) \<le> (k::int)" "k < 2 ^ 31"
  shows "(let m = k mod 2 ^ 32 in if m \<ge> 2 ^ 31 then m - 2 ^ 32 else m) = k"
proof (cases "0 \<le> k")
  case True
  then have "k mod 2 ^ 32 = k" using assms by simp
  then show ?thesis using assms by (simp add: Let_def)
next
  case False
  then have "k mod 2 ^ 32 = k + 2 ^ 32"
    using assms by (simp add: int_mod_pos_eq [of _ _ "-1"])
  then show ?thesis using assms False by (simp add: Let_def)
qed

lemma trunc_alt: "trunc r = (if r < 0 then \<lceil>r\<rceil> else \<lfloor>r\<rfloor>)"
  by (simp add: trunc_def ceiling_def)

lemma trunc_mono:
  assumes "x \<le> y"
  shows "trunc x \<le> trunc y"
proof -
  consider "y < 0" | "x < 0" "0 \<le> y" | "0 \<le> x"
    by linarith
  then show ?thesis
  proof cases
    case 1
    then show ?thesis using assms by (simp add: trunc_alt ceiling_mono)
  next
    case 2
    then have "\<lceil>x\<rceil> \<le> 0" "0 \<le> \<lfloor>y\<rfloor>"
      by (simp_all add: ceiling_le_iff)
    then have "\<lceil>x\<rceil> \<le> \<lfloor>y\<rfloor>" by linarith
    then show ?thesis using 2 by (simp add: trunc_alt)
  next
    case 3
    then show ?thesis using assms by (simp add: trunc_alt floor_mono)
  qed
qed

lemma trunc_of_int [simp]: "trunc (of_int k) = k"
  by (simp add: trunc_def)

lemma fl64_between:
  assumes "of_int lo \<le> x" and "x \<le> of_int hi" and "\<bar>lo\<bar> < 2 ^ 53" and "\<bar>hi\<bar> < 2 ^ 53"
  shows "of_int lo \<le> fl64 x" and "fl64 x \<le> of_int hi"
  using fl64_mono [OF assms(1)] fl64_mono [OF assms(2)] assms(3,4)
  by (simp_all add: fl64_of_int)

lemma quantize_Finite:
  "quantize (Finite s) =
     (let c = max (- 1) (min 1 s)
      in if c < - 1 / 2 then trunc (fl64 (c * 32768)) else trunc (fl64 (c * 32767)))"
proof -
  define c where "c = max (- 1) (min 1 s)"
  have c: "- 1 \<le> c" "c \<le> 1" by (auto simp: c_def)
  have p: "of_int (- 32768) \<le> fl64 (c * 32768)" "fl64 (c * 32768) \<le> of_int 32768"
    by (rule fl64_between [of "- 32768" _ 32768]; use c in simp)+
  have p': "of_int (- 32767) \<le> fl64 (c * 32767)" "fl64 (c * 32767) \<le> of_int 32767"
    by (rule fl64_between [of "- 32767" _ 32767]; use c in simp)+
  have a: "ToInt32 (Finite (fl64 (c * 32768))) = trunc (fl64 (c * 32768))"
    unfolding ToInt32.simps
    by (rule int32_id)
      (use trunc_mono [OF p(1)] trunc_mono [OF p(2)] in \<open>simp_all only: trunc_of_int\<close>, simp_all)
  have b: "ToInt32 (Finite (fl64 (c * 32767))) = trunc (fl64 (c * 32767))"
    unfolding ToInt32.simps
    by (rule int32_id)
      (use trunc_mono [OF p'(1)] trunc_mono [OF p'(2)] in \<open>simp_all only: trunc_of_int\<close>, simp_all)
  have neg: "num_negative (num_add (Finite (1 / 2)) (Finite c)) \<longleftrightarrow> c < - 1 / 2"
    by (auto simp: fl64_neg_iff)
  show ?thesis
    unfolding quantize_def Math_min.simps Math_max.simps c_def [symmetric] Let_def
    using a b neg by (simp add: min.commute max.commute c_def)
qed

lemma quantize_range: "- 32768 \<le> quantize x \<and> quantize x \<le> 32767"
proof (cases x)
  case (Finite s)
  define c where "c = max (- 1) (min 1 s)"
  have c: "- 1 \<le> c" "c \<le> 1" by (auto simp: c_def)
  have p: "of_int (- 32768) \<le> fl64 (c * 32768)"
    by (rule fl64_between [of "- 32768" _ 32768]; use c in simp)
  have q: "c < - 1 / 2 \<longrightarrow> fl64 (c * 32768) \<le> of_int 0"
  proof
    assume "c < - 1 / 2"
    then have "c * 32768 \<le> 0" by simp
    then have "fl64 (c * 32768) \<le> fl64 0" by (rule fl64_mono)
    then show "fl64 (c * 32768) \<le> of_int 0" by simp
  qed
  have p': "of_int (- 32767) \<le> fl64 (c * 32767)" "fl64 (c * 32767) \<le> of_int 32767"
    by (rule fl64_between [of "- 32767" _ 32767]; use c in simp)+
  have "trunc (of_int (- 32768)) \<le> trunc (fl64 (c * 32768))"
    by (rule trunc_mono [OF p])
  moreover have "c < - 1 / 2 \<longrightarrow> trunc (fl64 (c * 32768)) \<le> trunc (of_int 0)"
    using q by (auto intro: trunc_mono)
  moreover have "trunc (of_int (- 32767)) \<le> trunc (fl64 (c * 32767))"
    by (rule trunc_mono [OF p'(1)])
  moreover have "trunc (fl64 (c * 32767)) \<le> trunc (of_int 32767)"
    by (rule trunc_mono [OF p'(2)])
  ultimately show ?thesis
    unfolding Finite quantize_Finite c_def [symmetric] Let_def trunc_of_int
    by auto
next
  case PosInfinity
  have "quantize PosInfinity = 32767" by code_simp
  then show ?thesis using PosInfinity by simp
next
  case NegInfinity
  have "quantize NegInfinity = - 32768" by code_simp
  then show ?thesis using NegInfinity by simp
next
  case NaN
  then show ?thesis by (simp add: quantize_def)
qed

lemma le_uint_le_bytes: "le_uint (le_bytes n k) = k mod 256 ^ n"
proof (induction n arbitrary: k)
  case 0
  then show ?case by simp
next
  case (Suc n)
  have "k mod (256 * 256 ^ n) = 256 * (k div 256 mod 256 ^ n) + k mod 256"
    by (rule zmod_zmult2_eq) simp
  then show ?case
    by (simp add: Suc.IH)
qed

lemma le_bytes_2: "le_bytes 2 k = [k mod 256, k div 256 mod 256]"
  by (simp add: numeral_2_eq_2)

lemma le_sint16_le_bytes:
  assumes "- 32768 \<le> k" "k \<le> 32767"
  shows "le_sint16 (le_bytes 2 (k mod 2 ^ 16)) = k"
proof -
  have u: "le_uint (le_bytes 2 (k mod 2 ^ 16)) = k mod 65536"
    by (simp add: le_uint_le_bytes)
  show ?thesis
  proof (cases "0 \<le> k")
    case True
    then have "k mod 65536 = k" using assms by simp
    then show ?thesis using assms True unfolding le_sint16_def u by (simp add: Let_def)
  next
    case False
    then have "k mod 65536 = k + 65536"
      using assms by (simp add: int_mod_pos_eq [of _ _ "-1"])
    then show ?thesis using assms False unfolding le_sint16_def u by (simp add: Let_def)
  qed
qed

section \<open>The header and the sample loops\<close>

lemma length_le_bytes [simp]: "length (le_bytes n k) = n"
  by (induction n arbitrary: k) auto

lemma store_append:
  "length bs \<le> length r \<Longrightarrow> store (length a) bs (a @ r) = Inr (a @ bs @ drop (length bs) r)"
  by (simp add: store_def)

lemma setUint32_append:
  "setUint32 d \<lparr>view = a @ replicate (4 + k) 0, pos = length a, offset = f, reads = rs\<rparr> =
   Inr \<lparr>view = (a @ le_bytes 4 (d mod 2 ^ 32)) @ replicate k 0,
        pos = length (a @ le_bytes 4 (d mod 2 ^ 32)), offset = f, reads = rs\<rparr>"
  by (simp add: setUint32_def store_append)

lemma setUint16_append:
  "setUint16 d \<lparr>view = a @ replicate (2 + k) 0, pos = length a, offset = f, reads = rs\<rparr> =
   Inr \<lparr>view = (a @ le_bytes 2 (d mod 2 ^ 16)) @ replicate k 0,
        pos = length (a @ le_bytes 2 (d mod 2 ^ 16)), offset = f, reads = rs\<rparr>"
  by (simp add: setUint16_def store_append)

lemma write_header_append:
  "write_header buffer len
     \<lparr>view = [] @ replicate (4 + (4 + (4 + (4 + (4 + (2 + (2 + (4 + (4 + (2 + (2 + (4 + (4 + m))))))))))))) 0,
      pos = length ([] :: int list), offset = 0, reads = []\<rparr> =
   Inr \<lparr>view = wav_header buffer len @ replicate m 0, pos = 44, offset = 0, reads = []\<rparr>"
  apply (simp only: write_header_def Let_def in_sequence.simps setUint32_append setUint16_append
      sum.case encoder.select_convs)
  apply (simp add: wav_header_def Let_def)
  done

lemma write_sample_append:
  "i < length channels \<Longrightarrow>
   write_sample channels i \<lparr>view = a @ replicate (2 + k) 0, pos = length a, offset = f, reads = rs\<rparr> =
   Inr \<lparr>view = (a @ le_bytes 2 (quantize (typed_get (channels ! i) f) mod 2 ^ 16)) @ replicate k 0,
        pos = length a + 2, offset = f, reads = rs @ [(i, f)]\<rparr>"
  by (simp add: write_sample_def setInt16_def store_append Let_def)

lemma write_frame_append:
  "numOfChan \<le> length channels \<Longrightarrow> i \<le> numOfChan \<Longrightarrow>
   write_frame channels numOfChan i
     \<lparr>view = a @ replicate (2 * (numOfChan - i) + k) 0, pos = length a, offset = f, reads = rs\<rparr> =
   Inr \<lparr>view = a @ frame_bytes channels f i numOfChan @ replicate k 0,
        pos = length a + 2 * (numOfChan - i), offset = f,
        reads = rs @ map (\<lambda>c. (c, f)) [i..<numOfChan]\<rparr>"
proof (induction "numOfChan - i" arbitrary: i a rs)
  case 0
  then show ?case
    by (simp add: write_frame.simps frame_bytes_def)
next
  case (Suc n)
  then have lt: "i < numOfChan" and n: "n = numOfChan - (i + 1)" by auto
  have rep: "2 * (numOfChan - i) + k = 2 + (2 * (numOfChan - (i + 1)) + k)"
    using lt by simp
  let ?bs = "le_bytes 2 (quantize (typed_get (channels ! i) f) mod 2 ^ 16)"
  have step: "write_sample channels i
      \<lparr>view = a @ replicate (2 * (numOfChan - i) + k) 0, pos = length a, offset = f, reads = rs\<rparr> =
     Inr \<lparr>view = (a @ ?bs) @ replicate (2 * (numOfChan - (i + 1)) + k) 0,
          pos = length (a @ ?bs), offset = f, reads = rs @ [(i, f)]\<rparr>"
    unfolding rep using lt Suc.prems(1) by (subst write_sample_append) auto
  have ih: "write_frame channels numOfChan (i + 1)
      \<lparr>view = (a @ ?bs) @ replicate (2 * (numOfChan - (i + 1)) + k) 0,
       pos = length (a @ ?bs), offset = f, reads = rs @ [(i, f)]\<rparr> =
     Inr \<lparr>view = (a @ ?bs) @ frame_bytes channels f (i + 1) numOfChan @ replicate k 0,
          pos = length (a @ ?bs) + 2 * (numOfChan - (i + 1)), offset = f,
          reads = (rs @ [(i, f)]) @ map (\<lambda>c. (c, f)) [i + 1..<numOfChan]\<rparr>"
    by (rule Suc.hyps(1) [OF n Suc.prems(1)]) (use lt in simp)
  have fb: "frame_bytes channels f i numOfChan = ?bs @ frame_bytes channels f (i + 1) numOfChan"
    using lt by (simp add: frame_bytes_def upt_conv_Cons)
  have up: "[i..<numOfChan] = i # [i + 1..<numOfChan]"
    using lt by (simp add: upt_conv_Cons)
  show ?case
    apply (subst write_frame.simps)
    apply (simp only: lt if_True step sum.case ih)
    using lt apply (simp add: fb up)
    done
qed

lemma length_frame_bytes [simp]: "length (frame_bytes channels f i n) = 2 * (n - i)"
  by (induction n) (auto simp: frame_bytes_def)

lemma write_samples_append:
  "0 < numOfChan \<Longrightarrow> numOfChan \<le> length channels \<Longrightarrow>
   write_samples channels numOfChan (length a + 2 * numOfChan * m)
     \<lparr>view = a @ replicate (2 * numOfChan * m) 0, pos = length a, offset = f, reads = rs\<rparr> =
   Some (Inr \<lparr>view = a @ data_bytes channels numOfChan f m,
              pos = length a + 2 * numOfChan * m, offset = f + m,
              reads = rs @ read_order numOfChan f m\<rparr>)"
proof (induction m arbitrary: a f rs)
  case 0
  then show ?case
    by (subst write_samples.simps) (simp add: data_bytes_def read_order_def)
next
  case (Suc m)
  let ?fb = "frame_bytes channels f 0 numOfChan"
  have rep: "2 * numOfChan * Suc m = 2 * (numOfChan - 0) + 2 * numOfChan * m"
    by simp
  have frame: "write_frame channels numOfChan 0
      \<lparr>view = a @ replicate (2 * numOfChan * Suc m) 0, pos = length a, offset = f, reads = rs\<rparr> =
     Inr \<lparr>view = a @ ?fb @ replicate (2 * numOfChan * m) 0,
          pos = length a + 2 * (numOfChan - 0), offset = f,
          reads = rs @ map (\<lambda>c. (c, f)) [0..<numOfChan]\<rparr>"
    unfolding rep using Suc.prems by (subst write_frame_append) auto
  have ih: "write_samples channels numOfChan (length (a @ ?fb) + 2 * numOfChan * m)
      \<lparr>view = (a @ ?fb) @ replicate (2 * numOfChan * m) 0, pos = length (a @ ?fb),
       offset = f + 1, reads = rs @ map (\<lambda>c. (c, f)) [0..<numOfChan]\<rparr> =
     Some (Inr \<lparr>view = (a @ ?fb) @ data_bytes channels numOfChan (f + 1) m,
                pos = length (a @ ?fb) + 2 * numOfChan * m, offset = f + 1 + m,
                reads = (rs @ map (\<lambda>c. (c, f)) [0..<numOfChan]) @ read_order numOfChan (f + 1) m\<rparr>)"
    by (rule Suc.IH [OF Suc.prems])
  have lt: "length a < length a + 2 * numOfChan * Suc m"
    using Suc.prems by simp
  have d: "data_bytes channels numOfChan f (Suc m) = ?fb @ data_bytes channels numOfChan (f + 1) m"
    by (simp add: data_bytes_def upt_conv_Cons del: upt_Suc)
  have r: "read_order numOfChan f (Suc m) =
      map (\<lambda>c. (c, f)) [0..<numOfChan] @ read_order numOfChan (f + 1) m"
    by (simp add: read_order_def upt_conv_Cons del: upt_Suc)
  show ?case
    apply (subst write_samples.simps)
    apply (simp only: encoder.select_convs lt if_True frame sum.case encoder.update_convs)
    using ih apply (simp add: d r algebra_simps)
    done
qed

lemma length_wav_header [simp]: "length (wav_header b len) = 44"
  by (simp add: wav_header_def Let_def)

lemma data_bytes_no_channels [simp]: "data_bytes channels 0 f m = []"
  by (simp add: data_bytes_def frame_bytes_def)

lemma read_order_no_channels [simp]: "read_order 0 f m = []"
  by (simp add: read_order_def)

lemma encode_run_eq:
  "encode_run b =
   Some (Inr \<lparr>view = wav_header b (buf_length b * numberOfChannels b * 2 + 44) @
                 data_bytes (channelData b) (numberOfChannels b) 0 (buf_length b),
              pos = buf_length b * numberOfChannels b * 2 + 44,
              offset = (if numberOfChannels b = 0 then 0 else buf_length b),
              reads = read_order (numberOfChannels b) 0 (buf_length b)\<rparr>)"
proof -
  define nc where "nc = numberOfChannels b"
  define n where "n = buf_length b"
  define len where "len = n * nc * 2 + 44"
  define m where "m = 2 * nc * n"
  let ?h = "wav_header b len"
  have chans: "map (\<lambda>i. channelData b ! i) [0..<nc] = channelData b"
    unfolding nc_def numberOfChannels_def by (rule map_nth)
  have init: "replicate len (0::int) =
      [] @ replicate (4 + (4 + (4 + (4 + (4 + (2 + (2 + (4 + (4 + (2 + (2 + (4 + (4 + m))))))))))))) 0"
    by (simp add: len_def m_def)
  have hdr: "write_header b len \<lparr>view = replicate len 0, pos = 0, offset = 0, reads = []\<rparr> =
      Inr \<lparr>view = ?h @ replicate m 0, pos = length ?h, offset = 0, reads = []\<rparr>"
    unfolding init using write_header_append [of b len m] by simp
  have len': "len = length ?h + 2 * nc * n"
    by (simp add: len_def)
  have loop: "write_samples (channelData b) nc len
      \<lparr>view = ?h @ replicate m 0, pos = length ?h, offset = 0, reads = []\<rparr> =
     Some (Inr \<lparr>view = ?h @ data_bytes (channelData b) nc 0 n, pos = len,
                offset = (if nc = 0 then 0 else n), reads = read_order nc 0 n\<rparr>)"
  proof (cases "nc = 0")
    case True
    then show ?thesis
      by (subst write_samples.simps) (simp add: len_def m_def)
  next
    case False
    then have p: "0 < nc" "nc \<le> length (channelData b)"
      by (simp_all add: nc_def numberOfChannels_def)
    have e: "44 + 2 * nc * n = n * nc * 2 + 44" by simp
    have "write_samples (channelData b) nc (length ?h + 2 * nc * n)
        \<lparr>view = ?h @ replicate (2 * nc * n) 0, pos = length ?h, offset = 0, reads = []\<rparr> =
       Some (Inr \<lparr>view = ?h @ data_bytes (channelData b) nc 0 n,
                  pos = length ?h + 2 * nc * n, offset = 0 + n,
                  reads = [] @ read_order nc 0 n\<rparr>)"
      by (rule write_samples_append [OF p])
    then show ?thesis using False by (simp add: m_def len_def e)
  qed
  have "encode_run b =
      (case write_header b len \<lparr>view = replicate len 0, pos = 0, offset = 0, reads = []\<rparr> of
         Inl e \<Rightarrow> Some (Inl e)
       | Inr st \<Rightarrow> write_samples (map (\<lambda>i. channelData b ! i) [0..<nc]) nc len st)"
    unfolding encode_run_def Let_def nc_def n_def len_def ..
  also have "\<dots> = write_samples (channelData b) nc len
      \<lparr>view = ?h @ replicate m 0, pos = length ?h, offset = 0, reads = []\<rparr>"
    by (simp only: hdr chans sum.case)
  finally show ?thesis
    unfolding loop by (simp add: len_def nc_def n_def)
qed

lemma audioBufferToWav_eq:
  "audioBufferToWav b =
   Some (Inr (wav_header b (buf_length b * numberOfChannels b * 2 + 44) @
              data_bytes (channelData b) (numberOfChannels b) 0 (buf_length b)))"
  by (simp add: audioBufferToWav_def encode_run_eq)

lemma ascii_tags:
  "le_bytes 4 1179011410 = ascii ''RIFF''"
  "le_bytes 4 1163280727 = ascii ''WAVE''"
  "le_bytes 4 544501094 = ascii ''fmt ''"
  "le_bytes 4 1635017060 = ascii ''data''"
  by code_simp+

lemma header_fields:
  fixes b len
  defines "h \<equiv> wav_header b len"
  shows "slice 0 4 h = ascii ''RIFF''"
    and "le_uint (slice 4 8 h) = (int len - 8) mod 2 ^ 32"
    and "slice 8 12 h = ascii ''WAVE''"
    and "slice 12 16 h = ascii ''fmt ''"
    and "le_uint (slice 16 20 h) = 16"
    and "le_uint (slice 20 22 h) = 1"
    and "le_uint (slice 22 24 h) = int (numberOfChannels b) mod 2 ^ 16"
    and "le_uint (slice 24 28 h) = sampleRate b mod 2 ^ 32"
    and "le_uint (slice 28 32 h) = (sampleRate b * 2 * int (numberOfChannels b)) mod 2 ^ 32"
    and "le_uint (slice 32 34 h) = (int (numberOfChannels b) * 2) mod 2 ^ 16"
    and "le_uint (slice 34 36 h) = 16"
    and "slice 36 40 h = ascii ''data''"
    and "le_uint (slice 40 44 h) = (int len - 44) mod 2 ^ 32"
  unfolding h_def
  by (simp_all add: slice_def wav_header_def Let_def le_uint_le_bytes) (simp_all add: ascii_tags)

lemma slice_header:
  "j \<le> 44 \<Longrightarrow> slice i j (wav_header b len @ d) = slice i j (wav_header b len)"
  by (simp add: slice_def)

lemma length_data_bytes [simp]:
  "length (data_bytes channels numOfChan f m) = 2 * numOfChan * m"
  by (induction m) (simp_all add: data_bytes_def)

lemma concat_map_concat:
  "concat (map g (concat (map h fs))) = concat (map (\<lambda>fr. concat (map g (h fr))) fs)"
  by (induction fs) simp_all

lemma samples16_le_bytes:
  "list_all (\<lambda>q. - 32768 \<le> q \<and> q \<le> 32767) qs \<Longrightarrow>
   samples16 (concat (map (\<lambda>q. le_bytes 2 (q mod 2 ^ 16)) qs)) = qs"
proof (induction qs)
  case Nil
  then show ?case by simp
next
  case (Cons q qs)
  have "samples16 (le_bytes 2 x @ rest) = le_sint16 (le_bytes 2 x) # samples16 rest" for x rest
    by (simp add: le_bytes_2)
  then show ?case
    using Cons le_sint16_le_bytes [of q] by (simp del: le_bytes.simps)
qed

lemma interleaved_range: "list_all (\<lambda>q. - 32768 \<le> q \<and> q \<le> 32767) (interleaved b)"
  by (auto simp: interleaved_def list_all_iff quantize_range)

lemma data_bytes_valid:
  assumes "valid b"
  shows "data_bytes (channelData b) (numberOfChannels b) 0 (buf_length b) =
         concat (map (\<lambda>q. le_bytes 2 (q mod 2 ^ 16)) (interleaved b))"
proof -
  have get: "typed_get (channelData b ! c) f = channelData b ! c ! f"
    if "c < numberOfChannels b" "f < buf_length b" for c f
    using assms that by (simp add: valid_def list_all_length typed_get_def numberOfChannels_def)
  have "data_bytes (channelData b) (numberOfChannels b) 0 (buf_length b) =
      concat (map (\<lambda>fr. concat (map (\<lambda>c. le_bytes 2 (quantize (channelData b ! c ! fr) mod 2 ^ 16))
        [0..<numberOfChannels b])) [0..<buf_length b])"
    unfolding data_bytes_def frame_bytes_def
    by (intro arg_cong [where f = concat] map_cong refl) (auto simp: get)
  also have "\<dots> = concat (map (\<lambda>q. le_bytes 2 (q mod 2 ^ 16)) (interleaved b))"
    unfolding interleaved_def concat_map_concat by (simp add: comp_def)
  finally show ?thesis .
qed

lemma mono_single:
  "map_option (map_sum id (\<lambda>out. samples16 (drop 44 out)))
     (audioBufferToWav \<lparr>sampleRate = r, buf_length = 1, channelData = [[x]]\<rparr>) =
   Some (Inr [quantize x])"
  using quantize_range [of x] le_sint16_le_bytes [of "quantize x"]
  by (simp add: audioBufferToWav_eq numberOfChannels_def data_bytes_def frame_bytes_def
      typed_get_def le_bytes_2 del: le_bytes.simps)

lemma set_read_order:
  "(c, k) \<in> set (read_order numOfChan 0 m) \<longleftrightarrow> c < numOfChan \<and> k < m"
  by (force simp: read_order_def)

lemma length_read_order: "length (read_order numOfChan f m) = m * numOfChan"
  by (induction m) (simp_all add: read_order_def)

lemma wav_layout_mod:
  fixes b
  defines "len \<equiv> 44 + buf_length b * numberOfChannels b * 2"
  shows "\<exists>out. audioBufferToWav b = Some (Inr out) \<and>
     length out = len \<and>
     slice 0 4 out = ascii ''RIFF'' \<and>
     le_uint (slice 4 8 out) = (int len - 8) mod 2 ^ 32 \<and>
     slice 8 12 out = ascii ''WAVE'' \<and>
     slice 12 16 out = ascii ''fmt '' \<and>
     le_uint (slice 16 20 out) = 16 \<and>
     le_uint (slice 20 22 out) = 1 \<and>
     le_uint (slice 22 24 out) = int (numberOfChannels b) mod 2 ^ 16 \<and>
     le_uint (slice 24 28 out) = sampleRate b mod 2 ^ 32 \<and>
     le_uint (slice 28 32 out) = (sampleRate b * int (numberOfChannels b) * 2) mod 2 ^ 32 \<and>
     le_uint (slice 32 34 out) = (int (numberOfChannels b) * 2) mod 2 ^ 16 \<and>
     le_uint (slice 34 36 out) = 16 \<and>
     slice 36 40 out = ascii ''data'' \<and>
     le_uint (slice 40 44 out) = int (buf_length b * numberOfChannels b * 2) mod 2 ^ 32"
proof -
  have l: "buf_length b * numberOfChannels b * 2 + 44 = len"
    by (simp add: len_def)
  have d: "int len - 44 = int (buf_length b * numberOfChannels b * 2)"
    by (simp add: len_def)
  have m: "sampleRate b * 2 * int (numberOfChannels b) = sampleRate b * int (numberOfChannels b) * 2"
    by simp
  show ?thesis
    unfolding audioBufferToWav_eq l
    apply (intro exI [of _ "wav_header b len @
        data_bytes (channelData b) (numberOfChannels b) 0 (buf_length b)"] conjI refl)
                  apply (simp add: len_def)
                 apply (simp_all only: slice_header header_fields d m order.refl)
    done
qed

section \<open>Claims about the encoder\<close>

text \<open>
  C10. For every finite sample value \<open>s\<close>, however far outside \<open>[-1, 1]\<close>, the
  integer that the clamp, scale and truncate step produces lies in \<open>[-32768, 32767]\<close>,
  so the two bytes that \<open>setInt16\<close> writes read back as the same signed 16-bit
  value: nothing wraps around.
\<close>

theorem quantize_fits_int16:
  "- 32768 \<le> quantize (Finite s) \<and> quantize (Finite s) \<le> 32767 \<and>
   le_sint16 (le_bytes 2 (quantize (Finite s) mod 2 ^ 16)) = quantize (Finite s)"
  using quantize_range [of "Finite s"] le_sint16_le_bytes [of "quantize (Finite s)"]
  by (simp del: le_bytes.simps)

text \<open>
  C5. For every buffer satisfying the invariants, the bytes of the output from offset 44
  on are the quantized samples as 16-bit little-endian integers in frame-major
  interleaved order (frame 0 channel 0, frame 0 channel 1, ..., frame 1 channel 0, ...),
  and a reader of the data section gets exactly these values back.
\<close>

theorem data_section_interleaved:
  assumes "valid b"
  shows "\<exists>out. audioBufferToWav b = Some (Inr out) \<and>
           drop 44 out = concat (map (\<lambda>q. le_bytes 2 (q mod 2 ^ 16)) (interleaved b)) \<and>
           samples16 (drop 44 out) = interleaved b"
  using assms samples16_le_bytes [OF interleaved_range [of b]]
  by (simp add: audioBufferToWav_eq data_bytes_valid del: le_bytes.simps)

text \<open>
  The stereo scenario of C5: channel 0 is \<open>[0.0, 0.5]\<close>, channel 1 is
  \<open>[-0.5, 0.25]\<close>, and the data section holds the four samples in the order
  frame 0 channel 0, frame 0 channel 1, frame 1 channel 0, frame 1 channel 1.
\<close>

theorem data_section_interleaved_witness:
  "valid stereo_example \<and>
   (\<exists>out. audioBufferToWav stereo_example = Some (Inr out) \<and>
      samples16 (drop 44 out) =
        [quantize (Finite 0), quantize (Finite (- 1 / 2)), quantize (Finite (1 / 2)),
         quantize (Finite (1 / 4))] \<and>
      samples16 (drop 44 out) = [0, - 16383, 16383, 8191])"
proof -
  have v: "valid stereo_example"
    by (simp add: valid_def stereo_example_def numberOfChannels_def)
  have i: "interleaved stereo_example =
      [quantize (Finite 0), quantize (Finite (- 1 / 2)), quantize (Finite (1 / 2)),
       quantize (Finite (1 / 4))]"
    by (simp add: interleaved_def stereo_example_def numberOfChannels_def numeral_2_eq_2)
  have q: "[quantize (Finite 0), quantize (Finite (- 1 / 2)), quantize (Finite (1 / 2)),
       quantize (Finite (1 / 4))] = [0, - 16383, 16383, 8191]"
    by code_simp
  from data_section_interleaved [OF v] obtain out where
    "audioBufferToWav stereo_example = Some (Inr out)"
    "samples16 (drop 44 out) = interleaved stereo_example"
    by blast
  then show ?thesis
    using v i q by simp
qed


text \<open>
  C1. The claim: after clamping, a sample \<open>s\<close> is quantized as
  \<open>truncate(s * 32768)\<close> when \<open>s < 0\<close> and as \<open>truncate(s * 32767)\<close> otherwise. The
  condition in the code is \<open>0.5 + sample < 0\<close>, so the factor 32768 is used only
  below \<open>-0.5\<close> (lemma \<open>quantize_Finite\<close>). At the sample \<open>-0.25\<close> the encoder
  writes \<open>truncate(-0.25 * 32767) = -8191\<close>, where the claim gives
  \<open>truncate(-0.25 * 32768) = -8192\<close>.
\<close>

theorem quantize_at_minus_quarter:
  "map_option (map_sum id (\<lambda>out. samples16 (drop 44 out)))
     (audioBufferToWav \<lparr>sampleRate = 44100, buf_length = 1, channelData = [[Finite (- 1 / 4)]]\<rparr>) =
   Some (Inr [- 8191]) \<and>
   trunc (- 1 / 4 * 32767) = - 8191 \<and> trunc (- 1 / 4 * 32768) = - 8192"
  by code_simp

text \<open>
  C6. A single-sample mono buffer with the value 1.0 encodes to the 16-bit value 32767,
  with the value -1.0 to -32768, and with the out-of-range value 1.5 to the same data
  as with 1.0, at every sample rate.
\<close>

theorem amplitude_extremes:
  "map_option (map_sum id (\<lambda>out. samples16 (drop 44 out)))
     (audioBufferToWav \<lparr>sampleRate = r, buf_length = 1, channelData = [[Finite 1]]\<rparr>) =
   Some (Inr [32767]) \<and>
   map_option (map_sum id (\<lambda>out. samples16 (drop 44 out)))
     (audioBufferToWav \<lparr>sampleRate = r, buf_length = 1, channelData = [[Finite (- 1)]]\<rparr>) =
   Some (Inr [- 32768]) \<and>
   map_option (map_sum id (\<lambda>out. samples16 (drop 44 out)))
     (audioBufferToWav \<lparr>sampleRate = r, buf_length = 1, channelData = [[Finite (3 / 2)]]\<rparr>) =
   map_option (map_sum id (\<lambda>out. samples16 (drop 44 out)))
     (audioBufferToWav \<lparr>sampleRate = r, buf_length = 1, channelData = [[Finite 1]]\<rparr>)"
proof -
  have "quantize (Finite 1) = 32767" "quantize (Finite (- 1)) = - 32768"
    "quantize (Finite (3 / 2)) = 32767"
    by code_simp+
  then show ?thesis
    by (simp only: mono_single)
qed

text \<open>
  C7. For every buffer satisfying the invariants the encoder returns: the sample loop
  terminates, no write fails, the result is the complete byte sequence of
  \<open>44 + frameCount * channelCount * 2\<close> bytes, filled up to its end, and every one of
  the \<open>frameCount * channelCount\<close> accesses \<open>channels[i][offset]\<close> is inside the
  channel array it reads.
\<close>

theorem encode_total:
  assumes "valid b"
  shows "\<exists>st. encode_run b = Some (Inr st) \<and> audioBufferToWav b = Some (Inr (view st)) \<and>
           length (view st) = 44 + buf_length b * numberOfChannels b * 2 \<and>
           pos st = length (view st) \<and>
           length (reads st) = buf_length b * numberOfChannels b \<and>
           (\<forall>(i, k) \<in> set (reads st).
              i < numberOfChannels b \<and> k < length (channelData b ! i))"
proof -
  have len: "length (channelData b ! i) = buf_length b" if "i < numberOfChannels b" for i
    using assms that by (simp add: valid_def list_all_length numberOfChannels_def)
  show ?thesis
    unfolding encode_run_eq audioBufferToWav_eq
    by (auto simp: set_read_order length_read_order len)
qed

theorem encode_total_witness:
  "valid stereo_example \<and>
   (\<exists>st. encode_run stereo_example = Some (Inr st) \<and>
      audioBufferToWav stereo_example = Some (Inr (view st)) \<and>
      length (view st) = 52 \<and> pos st = 52 \<and> length (reads st) = 4 \<and>
      (\<forall>(i, k) \<in> set (reads st). i < 2 \<and> k < length (channelData stereo_example ! i)))"
proof -
  have v: "valid stereo_example"
    by (simp add: valid_def stereo_example_def numberOfChannels_def)
  have n: "numberOfChannels stereo_example = 2" "buf_length stereo_example = 2"
    by (simp_all add: stereo_example_def numberOfChannels_def)
  show ?thesis
    using v encode_total [OF v] unfolding n by auto
qed

text \<open>
  C2, amended. For every buffer satisfying the invariants whose header values fit
  their fields (\<open>channelCount * 2 < 2 ^ 16\<close>, \<open>sampleRate * channelCount * 2 < 2 ^ 32\<close>
  and \<open>36 + frameCount * channelCount * 2 < 2 ^ 32\<close>), the output has exactly
  \<open>44 + frameCount * channelCount * 2\<close> bytes and the header fields hold the stated
  tags and little-endian values. Without the bounds each numeric field holds the
  stated value modulo \<open>2 ^ 16\<close> or \<open>2 ^ 32\<close> (lemma \<open>wav_layout_mod\<close>).
\<close>

theorem wav_layout:
  assumes "valid b"
    and "numberOfChannels b * 2 < 2 ^ 16"
    and "sampleRate b * int (numberOfChannels b) * 2 < 2 ^ 32"
    and "36 + buf_length b * numberOfChannels b * 2 < 2 ^ 32"
  shows "\<exists>out. audioBufferToWav b = Some (Inr out) \<and>
     length out = 44 + buf_length b * numberOfChannels b * 2 \<and>
     slice 0 4 out = ascii ''RIFF'' \<and>
     le_uint (slice 4 8 out) = int (length out) - 8 \<and>
     slice 8 12 out = ascii ''WAVE'' \<and>
     slice 12 16 out = ascii ''fmt '' \<and>
     le_uint (slice 16 20 out) = 16 \<and>
     le_uint (slice 20 22 out) = 1 \<and>
     le_uint (slice 22 24 out) = int (numberOfChannels b) \<and>
     le_uint (slice 24 28 out) = sampleRate b \<and>
     le_uint (slice 28 32 out) = sampleRate b * int (numberOfChannels b) * 2 \<and>
     le_uint (slice 32 34 out) = int (numberOfChannels b) * 2 \<and>
     le_uint (slice 34 36 out) = 16 \<and>
     slice 36 40 out = ascii ''data'' \<and>
     le_uint (slice 40 44 out) = int (buf_length b * numberOfChannels b * 2)"
proof -
  define nc where "nc = int (numberOfChannels b)"
  define n where "n = int (buf_length b * numberOfChannels b * 2)"
  have pos: "0 < sampleRate b" "1 \<le> nc"
    using assms(1) by (simp_all add: valid_def nc_def)
  have "int (numberOfChannels b * 2) < int (2 ^ 16)"
    using assms(2) by (simp only: of_nat_less_iff)
  then have nc: "nc * 2 < 65536" "0 \<le> nc"
    by (simp_all add: nc_def)
  have "int (36 + buf_length b * numberOfChannels b * 2) < int (2 ^ 32)"
    using assms(4) by (simp only: of_nat_less_iff)
  then have n: "0 \<le> n" "36 + n < 4294967296"
    by (simp_all add: n_def)
  have "sampleRate b * 1 \<le> sampleRate b * nc"
    by (rule mult_left_mono) (use pos in simp_all)
  then have le: "sampleRate b \<le> sampleRate b * nc"
    by simp
  have a3: "sampleRate b * nc * 2 < 4294967296"
    using assms(3) by (simp add: nc_def)
  have r: "0 \<le> sampleRate b" "sampleRate b < 4294967296"
    "0 \<le> sampleRate b * nc * 2" "sampleRate b * nc * 2 < 4294967296"
    using le a3 pos(1) by linarith+
  have e: "(36 + n) mod 2 ^ 32 = 36 + n" "nc mod 2 ^ 16 = nc" "sampleRate b mod 2 ^ 32 = sampleRate b"
    "(sampleRate b * nc * 2) mod 2 ^ 32 = sampleRate b * nc * 2" "(nc * 2) mod 2 ^ 16 = nc * 2"
    "n mod 2 ^ 32 = n"
    using nc n r by simp_all
  from wav_layout_mod [of b] obtain out where out:
    "audioBufferToWav b = Some (Inr out)"
    "length out = 44 + buf_length b * numberOfChannels b * 2"
    "slice 0 4 out = ascii ''RIFF''"
    "le_uint (slice 4 8 out) = (int (44 + buf_length b * numberOfChannels b * 2) - 8) mod 2 ^ 32"
    "slice 8 12 out = ascii ''WAVE''"
    "slice 12 16 out = ascii ''fmt ''"
    "le_uint (slice 16 20 out) = 16"
    "le_uint (slice 20 22 out) = 1"
    "le_uint (slice 22 24 out) = nc mod 2 ^ 16"
    "le_uint (slice 24 28 out) = sampleRate b mod 2 ^ 32"
    "le_uint (slice 28 32 out) = (sampleRate b * nc * 2) mod 2 ^ 32"
    "le_uint (slice 32 34 out) = (nc * 2) mod 2 ^ 16"
    "le_uint (slice 34 36 out) = 16"
    "slice 36 40 out = ascii ''data''"
    "le_uint (slice 40 44 out) = n mod 2 ^ 32"
    unfolding nc_def n_def by blast
  have "int (44 + buf_length b * numberOfChannels b * 2) - 8 = 36 + n"
    by (simp add: n_def)
  then have f: "le_uint (slice 4 8 out) = int (length out) - 8"
    using out(2,4) e(1) by simp
  show ?thesis
    using out(1,2,3,5,6,7,8,14) f out(9-13,15) [unfolded e]
    unfolding nc_def n_def by blast
qed

text \<open>The literal scenario of C2: one second of mono silence is a file of 88244 bytes.\<close>

theorem wav_layout_witness:
  "valid one_second_silence \<and>
   numberOfChannels one_second_silence * 2 < 2 ^ 16 \<and>
   sampleRate one_second_silence * int (numberOfChannels one_second_silence) * 2 < 2 ^ 32 \<and>
   36 + buf_length one_second_silence * numberOfChannels one_second_silence * 2 < 2 ^ 32 \<and>
   (\<exists>out. audioBufferToWav one_second_silence = Some (Inr out) \<and>
      length out = 88244 \<and>
      slice 0 4 out = ascii ''RIFF'' \<and>
      le_uint (slice 4 8 out) = 88236 \<and>
      slice 8 12 out = ascii ''WAVE'' \<and>
      le_uint (slice 22 24 out) = 1 \<and>
      le_uint (slice 24 28 out) = 44100 \<and>
      le_uint (slice 28 32 out) = 88200 \<and>
      le_uint (slice 32 34 out) = 2 \<and>
      le_uint (slice 40 44 out) = 88200)"
proof -
  have f: "sampleRate one_second_silence = 44100" "buf_length one_second_silence = 44100"
    "numberOfChannels one_second_silence = 1"
    by (simp_all add: one_second_silence_def numberOfChannels_def)
  have v: "valid one_second_silence"
    by (simp add: valid_def f) (simp add: one_second_silence_def)
  have h: "numberOfChannels one_second_silence * 2 < 2 ^ 16"
    "sampleRate one_second_silence * int (numberOfChannels one_second_silence) * 2 < 2 ^ 32"
    "36 + buf_length one_second_silence * numberOfChannels one_second_silence * 2 < 2 ^ 32"
    by (simp_all add: f)
  show ?thesis
    using v h wav_layout [OF v h] unfolding f by auto
qed

text \<open>
  C2 as stated fails for a mono buffer of \<open>2 ^ 31\<close> frames: the data size is
  \<open>2 ^ 32\<close>, and the fields at offsets 40 and 4 hold 0 and 36.
\<close>

theorem wav_layout_counterexample:
  "valid long_recording \<and>
   int (buf_length long_recording * numberOfChannels long_recording * 2) = 4294967296 \<and>
   map_option (map_sum id (le_uint \<circ> slice 40 44)) (audioBufferToWav long_recording) =
     Some (Inr 0) \<and>
   map_option (map_sum id (le_uint \<circ> slice 4 8)) (audioBufferToWav long_recording) =
     Some (Inr 36)"
proof -
  have f: "buf_length long_recording = 2147483648" "numberOfChannels long_recording = 1"
    by (simp_all add: long_recording_def numberOfChannels_def)
  have v: "valid long_recording"
    by (simp add: valid_def f) (simp add: long_recording_def)
  from wav_layout_mod [of long_recording] obtain out where
    "audioBufferToWav long_recording = Some (Inr out)"
    "le_uint (slice 4 8 out) =
       (int (44 + buf_length long_recording * numberOfChannels long_recording * 2) - 8) mod 2 ^ 32"
    "le_uint (slice 40 44 out) =
       int (buf_length long_recording * numberOfChannels long_recording * 2) mod 2 ^ 32"
    by blast
  then show ?thesis
    using v unfolding f by simp
qed

section \<open>The channel loop and the extracted range\<close>

lemma subarray_in_range:
  "0 \<le> s \<Longrightarrow> s \<le> e \<Longrightarrow> e \<le> int (length xs) \<Longrightarrow>
   subarray xs s e = slice (nat s) (nat e) xs"
  by (simp add: subarray_def slice_def Let_def nat_diff_distrib)

lemma length_slice: "j \<le> length xs \<Longrightarrow> length (slice i j xs) = j - i"
  by (simp add: slice_def)

lemma copy_channels_not_InvalidRange:
  "copy_channels b s e i nb \<noteq> Inl InvalidRange"
proof (induction b s e i nb rule: copy_channels.induct)
  case (1 b s e i nb)
  show ?case
    apply (subst copy_channels.simps)
    using 1 by (auto simp: getChannelData_def typed_set_def split: sum.splits if_splits)
qed

lemma copy_channels_result:
  assumes "length (channelData nb) = numberOfChannels b"
    and "i \<le> numberOfChannels b"
    and "\<And>c. i \<le> c \<Longrightarrow> c < numberOfChannels b \<Longrightarrow>
           length (subarray (channelData b ! c) s e) = length (channelData nb ! c)"
  shows "copy_channels b s e i nb =
         Inr (nb\<lparr>channelData := take i (channelData nb) @
                  map (\<lambda>ch. subarray ch s e) (drop i (channelData b))\<rparr>)"
  using assms
proof (induction "numberOfChannels b - i" arbitrary: i nb)
  case 0
  then have "i = numberOfChannels b" by simp
  then show ?case
    using 0 by (subst copy_channels.simps) (simp add: numberOfChannels_def)
next
  case (Suc k)
  then have lt: "i < numberOfChannels b" by simp
  let ?d = "subarray (channelData b ! i) s e"
  let ?nb = "nb\<lparr>channelData := (channelData nb)[i := ?d]\<rparr>"
  have len: "length ?d = length (channelData nb ! i)"
    using Suc.prems(3) [of i] lt by simp
  have set: "typed_set (channelData nb ! i) ?d = Inr ?d"
    by (simp add: typed_set_def len)
  have ih: "copy_channels b s e (i + 1) ?nb =
      Inr (?nb\<lparr>channelData := take (i + 1) (channelData ?nb) @
             map (\<lambda>ch. subarray ch s e) (drop (i + 1) (channelData b))\<rparr>)"
  proof (rule Suc.hyps(1))
    show "k = numberOfChannels b - (i + 1)" using Suc.hyps(2) by simp
    show "length (channelData ?nb) = numberOfChannels b" using Suc.prems(1) by simp
    show "i + 1 \<le> numberOfChannels b" using lt by simp
    show "length (subarray (channelData b ! c) s e) = length (channelData ?nb ! c)"
      if "i + 1 \<le> c" "c < numberOfChannels b" for c
      using Suc.prems(3) [of c] that by simp
  qed
  have t: "take (i + 1) ((channelData nb)[i := ?d]) = take i (channelData nb) @ [?d]"
    using lt Suc.prems(1) by (simp add: take_Suc_conv_app_nth)
  have d: "drop i (channelData b) = channelData b ! i # drop (i + 1) (channelData b)"
    using lt by (simp add: Cons_nth_drop_Suc numberOfChannels_def)
  have nbc: "numberOfChannels nb = numberOfChannels b"
    using Suc.prems(1) by (simp add: numberOfChannels_def)
  show ?case
    apply (subst copy_channels.simps)
    using lt ih t by (simp add: getChannelData_def set d nbc)
qed

lemma fl64_upper:
  assumes "0 \<le> x"
  shows "fl64 x \<le> x * (1 + 1 / 2 ^ 53)"
proof -
  have "fl64 x - x \<le> \<bar>fl64 x - x\<bar>" by simp
  also have "\<dots> \<le> \<bar>x\<bar> / 2 ^ 53" by (rule fl64_error)
  finally have "fl64 x \<le> x + x / 2 ^ 53" using assms by simp
  then show ?thesis by (simp add: algebra_simps)
qed

lemma fl64_lower:
  assumes "0 \<le> x"
  shows "x * (1 - 1 / 2 ^ 53) \<le> fl64 x"
proof -
  have "x - fl64 x \<le> \<bar>fl64 x - x\<bar>" by simp
  also have "\<dots> \<le> \<bar>x\<bar> / 2 ^ 53" by (rule fl64_error)
  finally have "x - x / 2 ^ 53 \<le> fl64 x" using assms by simp
  then show ?thesis by (simp add: algebra_simps)
qed

text \<open>
  The frame count survives the division by the sample rate and the multiplication
  back up to less than one frame in either direction.
\<close>

lemma round_trip_bounds:
  fixes r :: rat
  assumes "0 < r" and "n < 2 ^ 32"
  defines "d \<equiv> fl64 (of_nat n / r)"
  shows "fl64 (d * r) < of_nat n + 1" and "of_nat n - 1 < fl64 (d * r)" and "0 \<le> d"
proof -
  define N :: rat where "N = of_nat n"
  have "(of_nat n :: rat) < of_nat (2 ^ 32)"
    using assms(2) by (simp only: of_nat_less_iff)
  then have N: "0 \<le> N" "N < 2 ^ 32"
    by (simp_all add: N_def)
  have q: "0 \<le> N / r" using N assms(1) by simp
  show d: "0 \<le> d" unfolding d_def N_def [symmetric] using q by (rule fl64_nonneg)
  have "d \<le> N / r * (1 + 1 / 2 ^ 53)"
    unfolding d_def N_def [symmetric] using q by (rule fl64_upper)
  then have "d * r \<le> N / r * (1 + 1 / 2 ^ 53) * r"
    using assms(1) by (intro mult_right_mono) simp_all
  then have up: "d * r \<le> N * (1 + 1 / 2 ^ 53)"
    using assms(1) by simp
  have "N / r * (1 - 1 / 2 ^ 53) \<le> d"
    unfolding d_def N_def [symmetric] using q by (rule fl64_lower)
  then have "N / r * (1 - 1 / 2 ^ 53) * r \<le> d * r"
    using assms(1) by (intro mult_right_mono) simp_all
  then have lo: "N * (1 - 1 / 2 ^ 53) \<le> d * r"
    using assms(1) by simp
  have dr: "0 \<le> d * r" using d assms(1) by simp
  have "fl64 (d * r) \<le> d * r * (1 + 1 / 2 ^ 53)"
    using dr by (rule fl64_upper)
  also have "\<dots> \<le> N * (1 + 1 / 2 ^ 53) * (1 + 1 / 2 ^ 53)"
    using up by (intro mult_right_mono) simp_all
  also have "\<dots> < N + 1"
    using N by (simp add: algebra_simps)
  finally show "fl64 (d * r) < of_nat n + 1" by (simp add: N_def)
  have "N - 1 < N * (1 - 1 / 2 ^ 53) * (1 - 1 / 2 ^ 53)"
    using N by (simp add: algebra_simps)
  also have "\<dots> \<le> d * r * (1 - 1 / 2 ^ 53)"
    using lo by (intro mult_right_mono) simp_all
  also have "\<dots> \<le> fl64 (d * r)"
    using dr by (rule fl64_lower)
  finally show "of_nat n - 1 < fl64 (d * r)" by (simp add: N_def)
qed

lemma trim_indices:
  assumes "valid b" and "unsigned_long (buf_length b)"
    and "max 0 st < min et (duration b)"
  defines "s \<equiv> \<lfloor>fl64 (max 0 st * of_int (sampleRate b))\<rfloor>"
    and "e \<equiv> \<lfloor>fl64 (min et (duration b) * of_int (sampleRate b))\<rfloor>"
  shows "0 \<le> s" "s \<le> e" "e \<le> int (buf_length b)"
proof -
  have r: "0 < sampleRate b" using assms(1) by (simp add: valid_def)
  then have r': "(0::rat) < of_int (sampleRate b)" by simp
  have n: "buf_length b < 2 ^ 32" using assms(2) by (simp add: unsigned_long_def)
  have "0 \<le> max 0 st * of_int (sampleRate b)"
    using r' by (intro mult_nonneg_nonneg) simp_all
  then have "0 \<le> fl64 (max 0 st * of_int (sampleRate b))" by (rule fl64_nonneg)
  then show "0 \<le> s" by (simp add: s_def)
  have "max 0 st * of_int (sampleRate b) \<le> min et (duration b) * of_int (sampleRate b)"
    using assms(3) r' by (intro mult_right_mono) simp_all
  then have "fl64 (max 0 st * of_int (sampleRate b)) \<le>
      fl64 (min et (duration b) * of_int (sampleRate b))"
    by (rule fl64_mono)
  then show "s \<le> e" unfolding s_def e_def by (rule floor_mono)
  have "min et (duration b) * of_int (sampleRate b) \<le> duration b * of_int (sampleRate b)"
    using r' by (intro mult_right_mono) simp_all
  then have "fl64 (min et (duration b) * of_int (sampleRate b)) \<le>
      fl64 (duration b * of_int (sampleRate b))"
    by (rule fl64_mono)
  also have "\<dots> < of_nat (buf_length b) + 1"
    unfolding duration_def by (rule round_trip_bounds(1) [OF r' n])
  finally have "fl64 (min et (duration b) * of_int (sampleRate b)) <
      of_int (int (buf_length b) + 1)"
    by simp
  then have "e < int (buf_length b) + 1"
    unfolding e_def by (simp only: floor_less_iff)
  then show "e \<le> int (buf_length b)" by simp
qed

lemma handleTrim_newBuffer_valid:
  assumes "valid b" and "unsigned_long (buf_length b)"
    and "max 0 st < min et (duration b)"
  defines "s \<equiv> \<lfloor>fl64 (max 0 st * of_int (sampleRate b))\<rfloor>"
    and "e \<equiv> \<lfloor>fl64 (min et (duration b) * of_int (sampleRate b))\<rfloor>"
  shows "handleTrim_newBuffer b st et =
     (if e - s \<le> 0 then Inl NotSupportedError
      else Inr \<lparr>sampleRate = sampleRate b, buf_length = nat (e - s),
                channelData = map (slice (nat s) (nat e)) (channelData b)\<rparr>)"
proof -
  note idx = trim_indices [OF assms(1,2,3), folded s_def e_def]
  have r: "0 < sampleRate b" "0 < numberOfChannels b"
    using assms(1) by (simp_all add: valid_def)
  have len: "length ch = buf_length b" if "ch \<in> set (channelData b)" for ch
    using assms(1) that by (simp add: valid_def list_all_iff)
  have sub: "subarray ch s e = slice (nat s) (nat e) ch" if "ch \<in> set (channelData b)" for ch
    using idx len [OF that] by (intro subarray_in_range) simp_all
  have unf: "handleTrim_newBuffer b st et =
      (case createBuffer (numberOfChannels b) (e - s) (sampleRate b) of
         Inl err \<Rightarrow> Inl err
       | Inr newBuffer \<Rightarrow> copy_channels b s e 0 newBuffer)"
  proof -
    have "\<not> min et (duration b) \<le> max 0 st"
      using assms(3) by (simp only: not_le)
    then show ?thesis
      unfolding handleTrim_newBuffer_def Let_def s_def e_def by (simp only: if_False)
  qed
  show ?thesis
  proof (cases "e - s \<le> 0")
    case True
    then show ?thesis unfolding unf by (simp add: createBuffer_def)
  next
    case False
    let ?nb = "\<lparr>sampleRate = sampleRate b, buf_length = nat (e - s),
        channelData = replicate (numberOfChannels b) (replicate (nat (e - s)) (Finite 0))\<rparr>"
    have cb: "createBuffer (numberOfChannels b) (e - s) (sampleRate b) = Inr ?nb"
      using False r by (simp add: createBuffer_def)
    have "copy_channels b s e 0 ?nb =
        Inr (?nb\<lparr>channelData := take 0 (channelData ?nb) @
               map (\<lambda>ch. subarray ch s e) (drop 0 (channelData b))\<rparr>)"
    proof (rule copy_channels_result)
      show "length (channelData ?nb) = numberOfChannels b" by simp
      show "0 \<le> numberOfChannels b" by simp
      fix c assume c: "c < numberOfChannels b"
      then have m: "channelData b ! c \<in> set (channelData b)"
        by (simp add: numberOfChannels_def)
      have "length (slice (nat s) (nat e) (channelData b ! c)) = nat e - nat s"
        using idx len [OF m] by (intro length_slice) simp
      then show "length (subarray (channelData b ! c) s e) = length (channelData ?nb ! c)"
        using c idx by (simp add: sub [OF m] nat_diff_distrib)
    qed
    moreover have "map (\<lambda>ch. subarray ch s e) (channelData b) =
        map (slice (nat s) (nat e)) (channelData b)"
      by (rule map_cong) (simp_all add: sub)
    ultimately show ?thesis
      unfolding unf cb using False by simp
  qed
qed

lemma handleTrim_newBuffer_InvalidRange:
  "handleTrim_newBuffer b st et = Inl InvalidRange \<longleftrightarrow> min et (duration b) \<le> max 0 st"
proof (cases "min et (duration b) \<le> max 0 st")
  case True
  then show ?thesis by (simp add: handleTrim_newBuffer_def)
next
  case False
  then show ?thesis
    by (auto simp: handleTrim_newBuffer_def Let_def createBuffer_def
        copy_channels_not_InvalidRange split: sum.splits)
qed

lemma prefix_frames_all:
  assumes "valid b"
  shows "prefix_frames (buf_length b) b = b"
proof -
  have "map (take (buf_length b)) (channelData b) = map (\<lambda>ch. ch) (channelData b)"
  proof (rule map_cong [OF refl])
    fix ch assume "ch \<in> set (channelData b)"
    then have "length ch = buf_length b"
      using assms by (simp add: valid_def list_all_iff)
    then show "take (buf_length b) ch = ch" by simp
  qed
  then show ?thesis by (simp add: prefix_frames_def)
qed

text \<open>
  A range that starts at 0: the result is an initial segment of the buffer, of at most
  as many frames as the buffer has.
\<close>

lemma trim_from_zero:
  assumes "valid b" and "unsigned_long (buf_length b)" and "0 < min et (duration b)"
  defines "e \<equiv> \<lfloor>fl64 (min et (duration b) * of_int (sampleRate b))\<rfloor>"
  shows "e \<le> int (buf_length b)"
    and "handleTrim_newBuffer b 0 et =
      (if e \<le> 0 then Inl NotSupportedError else Inr (prefix_frames (nat e) b))"
proof -
  have h: "max 0 0 < min et (duration b)" using assms(3) by simp
  have s: "\<lfloor>fl64 (max 0 0 * of_int (sampleRate b))\<rfloor> = 0" by simp
  show "e \<le> int (buf_length b)"
    using trim_indices(3) [OF assms(1,2) h] by (simp add: e_def)
  show "handleTrim_newBuffer b 0 et =
      (if e \<le> 0 then Inl NotSupportedError else Inr (prefix_frames (nat e) b))"
    using handleTrim_newBuffer_valid [OF assms(1,2) h]
    unfolding s e_def [symmetric] by (simp add: prefix_frames_def slice_def)
qed

lemma trim_result_valid:
  assumes "valid b" and "0 \<le> s" and "s < e" and "e \<le> int (buf_length b)"
  defines "sub \<equiv> \<lparr>sampleRate = sampleRate b, buf_length = nat (e - s),
                     channelData = map (slice (nat s) (nat e)) (channelData b)\<rparr>"
  shows "valid sub"
proof -
  have "length (slice (nat s) (nat e) ch) = nat (e - s)" if "ch \<in> set (channelData b)" for ch
  proof -
    have "length ch = buf_length b"
      using assms(1) that by (simp add: valid_def list_all_iff)
    then have "length (slice (nat s) (nat e) ch) = nat e - nat s"
      using assms(4) by (intro length_slice) simp
    then show ?thesis using assms(2,3) by (simp add: nat_diff_distrib)
  qed
  then show ?thesis
    using assms(1) by (simp add: valid_def sub_def numberOfChannels_def list_all_iff)
qed

lemma round_trip_upper:
  fixes r :: rat
  assumes "0 < r"
  shows "fl64 (of_nat n / r) * r \<le> of_nat n * (1 + 1 / 2 ^ 53)"
proof -
  have "fl64 (of_nat n / r) \<le> of_nat n / r * (1 + 1 / 2 ^ 53)"
    using assms by (intro fl64_upper) simp
  then have "fl64 (of_nat n / r) * r \<le> of_nat n / r * (1 + 1 / 2 ^ 53) * r"
    using assms by (intro mult_right_mono) simp_all
  then show ?thesis using assms by simp
qed

lemma round_trip_lower:
  fixes r :: rat
  assumes "0 < r"
  shows "of_nat n * (1 - 1 / 2 ^ 53) \<le> fl64 (of_nat n / r) * r"
proof -
  have "of_nat n / r * (1 - 1 / 2 ^ 53) \<le> fl64 (of_nat n / r)"
    using assms by (intro fl64_lower) simp
  then have "of_nat n / r * (1 - 1 / 2 ^ 53) * r \<le> fl64 (of_nat n / r) * r"
    using assms by (intro mult_right_mono) simp_all
  then show ?thesis using assms by simp
qed

text \<open>
  The second extraction of the composition keeps all but at most two frames of the
  first.
\<close>

lemma second_trim_lower:
  assumes "valid b" and "unsigned_long (buf_length b)"
    and "0 \<le> a" and "a < b'" and "b' \<le> duration b"
  defines "r \<equiv> (of_int (sampleRate b) :: rat)"
  defines "s \<equiv> \<lfloor>fl64 (a * r)\<rfloor>" and "e \<equiv> \<lfloor>fl64 (b' * r)\<rfloor>"
  assumes "0 < e - s"
  shows "e - s - 2 \<le>
    \<lfloor>fl64 (min (fl64 (b' - a)) (fl64 (of_nat (nat (e - s)) / r)) * r)\<rfloor>"
proof -
  define u :: rat where "u = 1 / 2 ^ 53"
  define L where "L = e - s"
  have r: "0 < r" using assms(1) by (simp add: valid_def r_def)
  have n: "buf_length b < 2 ^ 32" using assms(2) by (simp add: unsigned_long_def)
  have m: "max 0 a = a" "min b' (duration b) = b'" using assms(3,5) by simp_all
  have h: "max 0 a < min b' (duration b)" using assms(4) m by simp
  note idx = trim_indices [OF assms(1,2) h, unfolded m, folded r_def, folded s_def e_def]
  have L: "0 < L" "L \<le> int (buf_length b)" using assms(9) idx by (simp_all add: L_def)
  have "(of_int L :: rat) \<le> of_int (int (buf_length b))" using L(2) by (simp only: of_int_le_iff)
  also have "\<dots> < of_nat (2 ^ 32)" using n by (simp only: of_int_of_nat_eq of_nat_less_iff)
  finally have Lr: "(of_int L :: rat) < 2 ^ 32" by simp
  have er: "(of_int e :: rat) < 2 ^ 32"
  proof -
    have "(of_int e :: rat) \<le> of_int (int (buf_length b))" using idx(3) by (simp only: of_int_le_iff)
    also have "\<dots> < of_nat (2 ^ 32)" using n by (simp only: of_int_of_nat_eq of_nat_less_iff)
    finally show ?thesis by simp
  qed
  have A: "0 \<le> a * r" using assms(3) r by simp
  have B: "0 \<le> b' * r" using assms(3,4) r by simp
  txt \<open>The product for the end is below \<open>2 ^ 33\<close>.\<close>
  have "b' * r \<le> duration b * r" using assms(5) r by (intro mult_right_mono) simp_all
  also have "\<dots> \<le> of_nat (buf_length b) * (1 + 1 / 2 ^ 53)"
    unfolding duration_def r_def by (rule round_trip_upper) (use r in \<open>simp add: r_def\<close>)
  also have "\<dots> < 2 ^ 33"
  proof -
    have "(of_nat (buf_length b) :: rat) < of_nat (2 ^ 32)" using n by (simp only: of_nat_less_iff)
    then show ?thesis by simp
  qed
  finally have Bhi: "b' * r < 2 ^ 33" .
  txt \<open>The difference of the exact products is above \<open>L - 2\<close>, with room for one rounding.\<close>
  have "of_int e \<le> fl64 (b' * r)" by (simp add: e_def)
  also have "\<dots> \<le> b' * r * (1 + 1 / 2 ^ 53)" using B by (rule fl64_upper)
  finally have e1: "of_int e \<le> b' * r * (1 + u)" by (simp add: u_def)
  have "a * r * (1 - 1 / 2 ^ 53) \<le> fl64 (a * r)" using A by (rule fl64_lower)
  also have "\<dots> < of_int s + 1" unfolding s_def by linarith
  finally have s1: "a * r * (1 - u) < of_int s + 1" by (simp add: u_def)
  have u: "b' * r * (2 * u) < 1" using Bhi B by (simp add: u_def)
  have "(b' - a) * r * (1 - u) = b' * r * (1 + u) - b' * r * (2 * u) - a * r * (1 - u)"
    by (simp add: algebra_simps)
  then have diff: "of_int L - 2 < (b' - a) * r * (1 - u)"
    using e1 s1 u by (simp add: L_def)
  txt \<open>The rounded difference times the rate is at least \<open>L - 2\<close>.\<close>
  have "(b' - a) * (1 - 1 / 2 ^ 53) \<le> fl64 (b' - a)"
    using assms(4) by (intro fl64_lower) simp
  then have "(b' - a) * (1 - 1 / 2 ^ 53) * r \<le> fl64 (b' - a) * r"
    using r by (intro mult_right_mono) simp_all
  then have t: "of_int L - 2 \<le> fl64 (b' - a) * r"
    using diff by (simp add: u_def algebra_simps)
  txt \<open>So is the duration of the first result times the rate.\<close>
  have "of_nat (nat L) * (1 - 1 / 2 ^ 53) \<le> fl64 (of_nat (nat L) / r) * r"
    using r by (rule round_trip_lower)
  moreover have "(of_nat (nat L) :: rat) = of_int L" using L(1) by simp
  ultimately have "of_int L * (1 - 1 / 2 ^ 53) \<le> fl64 (of_nat (nat L) / r) * r"
    by simp
  then have d: "of_int L - 2 \<le> fl64 (of_nat (nat L) / r) * r"
    using Lr L(1) by (simp add: algebra_simps)
  have "of_int (L - 2) \<le> min (fl64 (b' - a)) (fl64 (of_nat (nat L) / r)) * r"
    using t d by (cases "fl64 (b' - a) \<le> fl64 (of_nat (nat L) / r)") simp_all
  then have "fl64 (of_int (L - 2)) \<le> fl64 (min (fl64 (b' - a)) (fl64 (of_nat (nat L) / r)) * r)"
    by (rule fl64_mono)
  moreover have "fl64 (of_int (L - 2)) = of_int (L - 2)"
  proof (rule fl64_of_int)
    have "(of_int L :: rat) < of_int (2 ^ 32)" using Lr by simp
    then have "L < 2 ^ 32" by (simp only: of_int_less_iff)
    then show "\<bar>L - 2\<bar> < 2 ^ 53" using L(1) by simp
  qed
  ultimately have "of_int (L - 2) \<le> fl64 (min (fl64 (b' - a)) (fl64 (of_nat (nat L) / r)) * r)"
    by simp
  then show ?thesis unfolding L_def [symmetric] by (simp only: le_floor_iff)
qed

section \<open>Claims about trimming\<close>

text \<open>
  C3. For every buffer satisfying the invariants, its length an unsigned long as that
  of every AudioBuffer, and every pair of times that passes the range check, the
  extraction slices every channel from
  \<open>startSample = floor(effectiveStart * sampleRate)\<close> to
  \<open>endSample = floor(effectiveEnd * sampleRate)\<close>, both clamped into
  \<open>[0, frameCount]\<close>: the clamping is done by \<open>subarray\<close>, and it never changes an
  index, since both already lie in that range. A range without a whole frame is refused
  by \<open>createBuffer\<close>.
\<close>

theorem trim_indices_clamped:
  assumes "valid b" and "unsigned_long (buf_length b)"
    and "max 0 startT < min endT (duration b)"
  shows "let startSample = \<lfloor>fl64 (max 0 startT * of_int (sampleRate b))\<rfloor>;
             endSample = \<lfloor>fl64 (min endT (duration b) * of_int (sampleRate b))\<rfloor>;
             lo = max 0 (min startSample (int (buf_length b)));
             hi = max 0 (min endSample (int (buf_length b)))
         in lo = startSample \<and> hi = endSample \<and>
            handleTrim_newBuffer b startT endT =
              (if hi - lo \<le> 0 then Inl NotSupportedError
               else Inr \<lparr>sampleRate = sampleRate b, buf_length = nat (hi - lo),
                         channelData = map (slice (nat lo) (nat hi)) (channelData b)\<rparr>)"
proof -
  define s where "s = \<lfloor>fl64 (max 0 startT * of_int (sampleRate b))\<rfloor>"
  define e where "e = \<lfloor>fl64 (min endT (duration b) * of_int (sampleRate b))\<rfloor>"
  note idx = trim_indices [OF assms, folded s_def e_def]
  have lo: "max 0 (min s (int (buf_length b))) = s"
    and hi: "max 0 (min e (int (buf_length b))) = e"
    using idx by simp_all
  show ?thesis
    unfolding Let_def s_def [symmetric] e_def [symmetric] lo hi
    using handleTrim_newBuffer_valid [OF assms, folded s_def e_def] by simp
qed

theorem trim_indices_clamped_witness:
  "valid short_clip \<and> unsigned_long (buf_length short_clip) \<and>
   max 0 (3 / 16384) < min 2 (duration short_clip) \<and>
   \<lfloor>fl64 (max 0 (3 / 16384) * of_int (sampleRate short_clip))\<rfloor> = 1 \<and>
   \<lfloor>fl64 (min 2 (duration short_clip) * of_int (sampleRate short_clip))\<rfloor> = 4 \<and>
   handleTrim_newBuffer short_clip (3 / 16384) 2 =
     Inr \<lparr>sampleRate = 8192, buf_length = 3,
          channelData = [[Finite (1 / 4), Finite (1 / 2), Finite (3 / 4)]]\<rparr>"
proof -
  have v: "valid short_clip"
    by (simp add: valid_def short_clip_def numberOfChannels_def)
  have l: "unsigned_long (buf_length short_clip)"
    by (simp add: unsigned_long_def short_clip_def)
  have h: "max 0 (3 / 16384) < min 2 (duration short_clip)"
    by code_simp
  have f: "\<lfloor>fl64 (max 0 (3 / 16384) * of_int (sampleRate short_clip))\<rfloor> = 1"
    "\<lfloor>fl64 (min 2 (duration short_clip) * of_int (sampleRate short_clip))\<rfloor> = 4"
    "buf_length short_clip = 4"
    by code_simp+
  have sl: "map (slice (Suc 0) 4) (channelData short_clip) =
      [[Finite (1 / 4), Finite (1 / 2), Finite (3 / 4)]]"
    by (simp add: slice_def short_clip_def)
  show ?thesis
    using v l h trim_indices_clamped [OF v l h] unfolding Let_def f
    by (simp add: sl) (simp add: short_clip_def)
qed

text \<open>
  C4. The extraction fails with the invalid-range error exactly when
  \<open>effectiveEnd \<le> effectiveStart\<close> after clamping, in particular for the ranges
  \<open>(5.0, 5.0)\<close> and \<open>(5.0, 3.0)\<close> on every buffer, and on that failure
  \<open>handleTrim\<close> only sets the status message: no buffer is created, nothing is
  encoded, and the output is left as it was.
\<close>

theorem range_rejection:
  assumes "audioBuffer st = Some b"
  shows "(handleTrim_newBuffer b (startTime st) (endTime st) = Inl InvalidRange \<longleftrightarrow>
            min (endTime st) (duration b) \<le> max 0 (startTime st)) \<and>
         (min (endTime st) (duration b) \<le> max 0 (startTime st) \<longrightarrow>
            handleTrim st = st\<lparr>status := ''Error: End time must be after start time.''\<rparr> \<and>
            output_wav (handleTrim st) = output_wav st) \<and>
         handleTrim_newBuffer b 5 5 = Inl InvalidRange \<and>
         handleTrim_newBuffer b 5 3 = Inl InvalidRange"
proof -
  have "handleTrim st = st\<lparr>status := ''Error: End time must be after start time.''\<rparr>"
    if "min (endTime st) (duration b) \<le> max 0 (startTime st)"
    using that assms handleTrim_newBuffer_InvalidRange [of b "startTime st" "endTime st"]
    by (simp add: handleTrim_def)
  then show ?thesis
    by (simp add: handleTrim_newBuffer_InvalidRange)
qed

theorem range_rejection_witness:
  "audioBuffer rejected_state = Some short_clip \<and>
   min (endTime rejected_state) (duration short_clip) \<le> max 0 (startTime rejected_state) \<and>
   handleTrim_newBuffer short_clip 5 3 = Inl InvalidRange \<and>
   handleTrim rejected_state =
     \<lparr>audioBuffer = Some short_clip, startTime = 5, endTime = 3,
      output_wav = Some [82, 73, 70, 70],
      status = ''Error: End time must be after start time.''\<rparr>"
proof -
  have a: "audioBuffer rejected_state = Some short_clip"
    by (simp add: rejected_state_def)
  have h: "min (endTime rejected_state) (duration short_clip) \<le> max 0 (startTime rejected_state)"
    by (simp add: rejected_state_def)
  show ?thesis
    using a h range_rejection [OF a] by (simp add: rejected_state_def)
qed

text \<open>
  C8 as stated fails: the extraction does not always succeed. For the mono buffer of
  one frame at 3007 Hz, the binary64 product of the duration and the sample rate is
  \<open>1 - 2 ^ -53\<close>, below 1, so the end index is 0, the length of the new buffer is 0,
  and \<open>createBuffer\<close> throws.
\<close>

theorem trim_identity_counterexample:
  "valid one_frame \<and> unsigned_long (buf_length one_frame) \<and> 0 < duration one_frame \<and>
   fl64 (duration one_frame * of_int (sampleRate one_frame)) = 1 - 1 / 2 ^ 53 \<and>
   handleTrim_newBuffer one_frame 0 (duration one_frame) = Inl NotSupportedError"
proof -
  have l: "unsigned_long (buf_length one_frame)"
    by (simp add: unsigned_long_def one_frame_def)
  have r: "valid one_frame" "0 < duration one_frame"
    "fl64 (duration one_frame * of_int (sampleRate one_frame)) = 1 - 1 / 2 ^ 53"
    "handleTrim_newBuffer one_frame 0 (duration one_frame) = Inl NotSupportedError"
    by code_simp+
  show ?thesis
    using l r by blast
qed

text \<open>
  C8, amended. For every buffer satisfying the invariants (its length an unsigned
  long) with a positive duration, let \<open>p\<close> be the binary64 product of the duration
  and the sample rate; it differs from the frame count by less than 1. The extraction
  from 0 to the duration yields the buffer itself when \<open>p\<close> is not below the frame
  count. When \<open>p\<close> is rounded below the frame count, it yields the buffer without its
  last frame (the same sample rate and channels, one frame less, the same samples up
  to there) if the buffer has at least two frames, and fails with NotSupportedError if
  the buffer has one frame.
\<close>

theorem trim_identity_up_to_rounding:
  assumes "valid b" and "unsigned_long (buf_length b)" and "0 < duration b"
  shows "let p = fl64 (duration b * of_int (sampleRate b)); n = buf_length b
         in of_nat n - 1 < p \<and> p < of_nat n + 1 \<and>
            handleTrim_newBuffer b 0 (duration b) =
              (if of_nat n \<le> p then Inr b
               else if n = 1 then Inl NotSupportedError
               else Inr (prefix_frames (n - 1) b))"
proof -
  define p where "p = fl64 (duration b * of_int (sampleRate b))"
  define e where "e = \<lfloor>p\<rfloor>"
  have r: "(0::rat) < of_int (sampleRate b)"
    using assms(1) by (simp add: valid_def)
  have n: "buf_length b < 2 ^ 32"
    using assms(2) by (simp add: unsigned_long_def)
  have pos: "0 < buf_length b"
    using assms(3) by (cases "buf_length b") (simp_all add: duration_def)
  have m: "min (duration b) (duration b) = duration b" by simp
  have h: "0 < min (duration b) (duration b)" using assms(3) by simp
  note z = trim_from_zero [OF assms(1,2) h, unfolded m, folded p_def, folded e_def]
  have hi: "p < of_nat (buf_length b) + 1"
    using round_trip_bounds(1) [OF r n] by (simp add: duration_def p_def)
  have lo: "of_nat (buf_length b) - 1 < p"
    using round_trip_bounds(2) [OF r n] by (simp add: duration_def p_def)
  have "of_int (int (buf_length b) - 1) \<le> p"
    using lo by simp
  then have elo: "int (buf_length b) - 1 \<le> e"
    unfolding e_def by (simp only: le_floor_iff)
  have cond: "of_nat (buf_length b) \<le> p \<longleftrightarrow> e = int (buf_length b)"
  proof -
    have "of_nat (buf_length b) \<le> p \<longleftrightarrow> of_int (int (buf_length b)) \<le> p"
      by simp
    also have "\<dots> \<longleftrightarrow> int (buf_length b) \<le> e"
      unfolding e_def by (simp only: le_floor_iff)
    also have "\<dots> \<longleftrightarrow> e = int (buf_length b)"
      using z(1) by auto
    finally show ?thesis .
  qed
  have res: "handleTrim_newBuffer b 0 (duration b) =
      (if of_nat (buf_length b) \<le> p then Inr b
       else if buf_length b = 1 then Inl NotSupportedError
       else Inr (prefix_frames (buf_length b - 1) b))"
  proof (cases "of_nat (buf_length b) \<le> p")
    case True
    then have "e = int (buf_length b)" using cond by blast
    then show ?thesis
      using z(2) True pos by (simp add: prefix_frames_all [OF assms(1)])
  next
    case False
    then have "e \<noteq> int (buf_length b)" using cond by blast
    then have e: "e = int (buf_length b) - 1"
      using elo z(1) by linarith
    then have "nat e = buf_length b - 1" "e \<le> 0 \<longleftrightarrow> buf_length b = 1"
      using pos by auto
    then show ?thesis
      using z(2) False by simp
  qed
  show ?thesis
    unfolding Let_def p_def [symmetric] using lo hi res by simp
qed

text \<open>
  Two instances: the clip at 8192 Hz, where nothing rounds and the buffer comes back
  whole, and the 15 frames at 44100 Hz, where the product is \<open>15 - 2 ^ -49\<close> and the
  first 14 frames come back.
\<close>

theorem trim_identity_up_to_rounding_witness:
  "valid short_clip \<and> unsigned_long (buf_length short_clip) \<and> 0 < duration short_clip \<and>
   fl64 (duration short_clip * of_int (sampleRate short_clip)) = 4 \<and>
   handleTrim_newBuffer short_clip 0 (duration short_clip) = Inr short_clip \<and>
   valid fifteen_frames \<and> unsigned_long (buf_length fifteen_frames) \<and>
   0 < duration fifteen_frames \<and>
   fl64 (duration fifteen_frames * of_int (sampleRate fifteen_frames)) = 15 - 1 / 2 ^ 49 \<and>
   handleTrim_newBuffer fifteen_frames 0 (duration fifteen_frames) =
     Inr (prefix_frames 14 fifteen_frames)"
proof -
  have v: "valid short_clip" "0 < duration short_clip"
    by code_simp+
  have vl: "unsigned_long (buf_length short_clip)"
    by (simp add: unsigned_long_def short_clip_def)
  have w: "valid fifteen_frames" "0 < duration fifteen_frames"
    by code_simp+
  have wl: "unsigned_long (buf_length fifteen_frames)"
    by (simp add: unsigned_long_def fifteen_frames_def)
  have p: "fl64 (duration short_clip * of_int (sampleRate short_clip)) = 4"
    "fl64 (duration fifteen_frames * of_int (sampleRate fifteen_frames)) = 15 - 1 / 2 ^ 49"
    by code_simp+
  have n: "buf_length short_clip = 4" "buf_length fifteen_frames = 15"
    by (simp_all add: short_clip_def fifteen_frames_def)
  have a: "handleTrim_newBuffer short_clip 0 (duration short_clip) = Inr short_clip"
    using trim_identity_up_to_rounding [OF v(1) vl v(2)] unfolding Let_def p n by simp
  have b: "handleTrim_newBuffer fifteen_frames 0 (duration fifteen_frames) =
      Inr (prefix_frames 14 fifteen_frames)"
    using trim_identity_up_to_rounding [OF w(1) wl w(2)] unfolding Let_def p n by simp
  show ?thesis
    using v vl w wl p a b by blast
qed

text \<open>
  C9 as stated fails: at 8192 Hz, extracting from \<open>a = 1/16384\<close> s (half a frame)
  to \<open>b = 1/2048\<close> s (four frames) gives four frames, and the range from 0 to
  \<open>b - a\<close> (three and a half frames) of that result has only three. All the
  numbers involved are binary64 numbers, and no operation rounds.
\<close>

theorem trim_composition_counterexample:
  "valid short_clip \<and> (0::rat) \<le> 1 / 16384 \<and> (1 / 16384 :: rat) < 1 / 2048 \<and>
   1 / 2048 \<le> duration short_clip \<and>
   handleTrim_newBuffer short_clip (1 / 16384) (1 / 2048) = Inr short_clip \<and>
   trim_then_trim short_clip (1 / 16384) (1 / 2048) =
     Inr \<lparr>sampleRate = 8192, buf_length = 3,
          channelData = [[Finite 0, Finite (1 / 4), Finite (1 / 2)]]\<rparr> \<and>
   trim_then_trim short_clip (1 / 16384) (1 / 2048) \<noteq>
     handleTrim_newBuffer short_clip (1 / 16384) (1 / 2048)"
  by code_simp

text \<open>
  C9, amended. For every buffer satisfying the invariants (its length an unsigned
  long) and all times \<open>0 \<le> a < b \<le> duration\<close>: when extracting from \<open>a\<close> to \<open>b\<close> fails, so does the
  composition; otherwise extracting from \<open>a\<close> to \<open>b\<close> and then from 0 to \<open>b - a\<close>
  yields an initial segment of the direct extraction that is shorter by at most two
  frames (the same sample rate and channels, the same samples up to its end), and
  fails when no frame is left in that segment.
\<close>

theorem trim_composition_prefix:
  assumes "valid b" and "unsigned_long (buf_length b)"
    and "0 \<le> a" and "a < b'" and "b' \<le> duration b"
  shows "case handleTrim_newBuffer b a b' of
           Inl err \<Rightarrow> trim_then_trim b a b' = Inl err
         | Inr direct \<Rightarrow>
             (\<exists>k. k \<le> buf_length direct \<and> buf_length direct \<le> k + 2 \<and>
                trim_then_trim b a b' =
                  (if k = 0 then Inl NotSupportedError else Inr (prefix_frames k direct)))"
proof -
  define r :: rat where "r = of_int (sampleRate b)"
  define s where "s = \<lfloor>fl64 (a * r)\<rfloor>"
  define e where "e = \<lfloor>fl64 (b' * r)\<rfloor>"
  have r: "0 < r" using assms(1) by (simp add: valid_def r_def)
  have n: "buf_length b < 2 ^ 32" using assms(2) by (simp add: unsigned_long_def)
  have m: "max 0 a = a" "min b' (duration b) = b'"
    using assms(3,5) by simp_all
  have h: "max 0 a < min b' (duration b)"
    using assms(4) m by simp
  note idx = trim_indices [OF assms(1,2) h, unfolded m, folded r_def, folded s_def e_def]
  note first = handleTrim_newBuffer_valid [OF assms(1,2) h, unfolded m, folded r_def,
      folded s_def e_def]
  show ?thesis
  proof (cases "e - s \<le> 0")
    case True
    then show ?thesis by (simp add: trim_then_trim_def first)
  next
    case False
    define sub where "sub = \<lparr>sampleRate = sampleRate b, buf_length = nat (e - s),
        channelData = map (slice (nat s) (nat e)) (channelData b)\<rparr>"
    have v: "valid sub"
      unfolding sub_def using assms(1) idx False by (intro trim_result_valid) simp_all
    have l: "unsigned_long (buf_length sub)"
      using idx n False by (simp add: sub_def unsigned_long_def)
    have d: "0 < duration sub"
    proof -
      have "0 < (of_nat (buf_length sub) :: rat) / of_int (sampleRate sub)"
        using False r by (simp add: sub_def r_def)
      then show ?thesis unfolding duration_def by (simp only: fl64_pos_iff)
    qed
    have t: "0 < fl64 (b' - a)"
      using assms(4) by (simp add: fl64_pos_iff)
    have h2: "0 < min (fl64 (b' - a)) (duration sub)"
      using d t by simp
    define k where "k = \<lfloor>fl64 (min (fl64 (b' - a)) (duration sub) * of_int (sampleRate sub))\<rfloor>"
    note z = trim_from_zero [OF v l h2, folded k_def]
    have lo: "e - s - 2 \<le> k"
      using second_trim_lower [OF assms, folded r_def, folded s_def e_def] False
      by (simp add: k_def duration_def sub_def r_def)
    have k0: "0 \<le> k"
    proof -
      have "0 \<le> min (fl64 (b' - a)) (duration sub) * of_int (sampleRate sub)"
        using h2 r by (simp add: sub_def r_def)
      then have "0 \<le> fl64 (min (fl64 (b' - a)) (duration sub) * of_int (sampleRate sub))"
        by (rule fl64_nonneg)
      then show ?thesis by (simp add: k_def)
    qed
    have "trim_then_trim b a b' =
        (if k \<le> 0 then Inl NotSupportedError else Inr (prefix_frames (nat k) sub))"
      using False z(2) by (simp add: trim_then_trim_def first sub_def)
    then have tt: "trim_then_trim b a b' =
        (if nat k = 0 then Inl NotSupportedError else Inr (prefix_frames (nat k) sub))"
      by simp
    have b1: "nat k \<le> buf_length sub" "buf_length sub \<le> nat k + 2"
      using z(1) lo k0 False by (simp_all add: sub_def)
    have ex: "\<exists>j. j \<le> buf_length sub \<and> buf_length sub \<le> j + 2 \<and>
        trim_then_trim b a b' =
          (if j = 0 then Inl NotSupportedError else Inr (prefix_frames j sub))"
      using tt b1 by blast
    have f2: "handleTrim_newBuffer b a b' = Inr sub"
      using first False by (simp add: sub_def)
    show ?thesis
      unfolding f2 sum.case by (rule ex)
  qed
qed

theorem trim_composition_prefix_witness:
  "valid short_clip \<and> unsigned_long (buf_length short_clip) \<and>
   (0::rat) \<le> 1 / 16384 \<and> (1 / 16384 :: rat) < 1 / 2048 \<and> 1 / 2048 \<le> duration short_clip \<and>
   handleTrim_newBuffer short_clip (1 / 16384) (1 / 2048) = Inr short_clip \<and>
   (\<exists>k. k \<le> buf_length short_clip \<and> buf_length short_clip \<le> k + 2 \<and>
      trim_then_trim short_clip (1 / 16384) (1 / 2048) =
        (if k = 0 then Inl NotSupportedError else Inr (prefix_frames k short_clip))) \<and>
   trim_then_trim short_clip (1 / 16384) (1 / 2048) = Inr (prefix_frames 3 short_clip)"
proof -
  have v: "valid short_clip"
    by (simp add: valid_def short_clip_def numberOfChannels_def)
  have l: "unsigned_long (buf_length short_clip)"
    by (simp add: unsigned_long_def short_clip_def)
  have h: "(0::rat) \<le> 1 / 16384" "(1 / 16384 :: rat) < 1 / 2048"
    "1 / 2048 \<le> duration short_clip"
    by code_simp+
  have d: "handleTrim_newBuffer short_clip (1 / 16384) (1 / 2048) = Inr short_clip"
    "trim_then_trim short_clip (1 / 16384) (1 / 2048) = Inr (prefix_frames 3 short_clip)"
    by code_simp+
  show ?thesis
    using v l h d(2) trim_composition_prefix [OF v l h] unfolding d(1) by simp
qed

end
